theory Spec2Isabelle
  imports Complex_Main
begin

section \<open>The BeatMaker step sequencer (src/script.js)\<close>

text \<open>
  A shallow embedding of class \<open>BeatMaker\<close>. The object's fields are a record, every
  method is a function from the state before the call to the state after it, and a
  JavaScript exception is a value: a method that can throw returns the error (if any)
  together with the state it leaves behind, because a throw does not undo the
  assignments made before it.

  What is modelled of the browser: the table of live repeating timers
  (\<open>setInterval\<close>/\<open>clearInterval\<close>), the list of voices started on the audio device,
  which step buttons \<open>generateSteps\<close> has put into the document, and the properties that
  \<open>pattern\<close>, \<open>soundConfig\<close> and \<open>variations\<close> inherit from \<open>Object.prototype\<close>, since the
  methods index these objects with strings they are given. CSS classes, the
  visualizer bars and the labels of the transport buttons carry no state that a method
  reads back and are left out; the elements the page's HTML supplies (\<open>playBtn\<close>,
  \<open>tempoValue\<close>, the mute buttons) are taken to be present.
\<close>

subsection \<open>Data\<close>

datatype error = TypeError

datatype waveform = sine | square | sawtooth | triangle

datatype filter_type = lowpass | highpass

text \<open>A primitive value: a boolean, a number or a string.\<close>

datatype prim = PBool bool | PNum real | PStr string

text \<open>
  One object held by \<open>soundConfig\<close>, by the properties it has: \<open>frequency\<close>, \<open>type\<close> and
  \<open>decay\<close> (\<open>None\<close>: the object has no such property), and in \<open>extra\<close> whatever else a
  spread has copied into it (integer-keyed properties of \<open>Object.prototype\<close> or of
  one of its functions, characters of a string).
\<close>

record sound_config =
  frequency :: "int option"
  wtype :: "waveform option"
  decay :: "real option"
  extra :: "string \<rightharpoonup> prim"

text \<open>One entry of the \<open>variations\<close> table of \<open>changeSound\<close>.\<close>

record variation =
  var_frequency :: int
  var_type :: waveform

text \<open>
  A JavaScript array of booleans: its \<open>length\<close> and its own properties with integer
  keys. A key that was never written is not an own property (\<open>None\<close>).
\<close>

record row =
  len :: nat
  cells :: "int \<rightharpoonup> bool"

text \<open>
  A voice started by \<open>playSound\<close>: oscillator frequency and type, the filter settings
  the method assigns (\<open>None\<close>: the filter node keeps its defaults), and the decay that
  ends the envelope. The track is recorded to tell the voices apart.
\<close>

record voice =
  v_track :: string
  v_frequency :: int
  v_type :: waveform
  v_filter :: "(filter_type \<times> int) option"
  v_decay :: real

record beatmaker =
  currentStep :: int
  isPlaying :: bool
  tempo :: int
  intervalId :: "nat option"
  pattern :: "string \<rightharpoonup> row"
  mutedTracks :: "string set"
  audioContext :: bool
  soundConfig :: "string \<rightharpoonup> sound_config"
  timers :: "(nat \<times> real option) list"
  nextTimer :: nat
  voices :: "voice list"
  objectProto :: "string \<rightharpoonup> bool"
  builtinProps :: "string \<Rightarrow> string \<rightharpoonup> bool"

text \<open>
  \<open>audioContext\<close> says whether the constructor obtained an audio context (the field is
  \<open>null\<close> otherwise). \<open>pattern\<close> and \<open>soundConfig\<close> hold the own properties of the two
  objects; the entry of \<open>soundConfig\<close> at \<open>__proto__\<close> is the object that an assignment to
  that key has made the prototype of \<open>soundConfig\<close>, which is what \<open>soundConfig.__proto__\<close>
  then evaluates to. \<open>timers\<close> are the browser's live repeating timers, each with its
  handle and delay in milliseconds; \<open>nextTimer\<close> is the handle the next \<open>setInterval\<close>
  returns (handles are positive). \<open>voices\<close> lists the voices started so far.
  \<open>objectProto\<close> holds the properties that have been written on \<open>Object.prototype\<close>, by
  property key, and \<open>builtinProps k\<close> those written on the function that
  \<open>Object.prototype\<close> has under the name \<open>k\<close>.
\<close>

type_synonym result = "error option \<times> beatmaker"

definition and_then :: "result \<Rightarrow> (beatmaker \<Rightarrow> result) \<Rightarrow> result" where
  "and_then r f = (case r of (None, s) \<Rightarrow> f s | (Some e, s) \<Rightarrow> (Some e, s))"

definition tracks :: "string list" where
  "tracks = [''kick'', ''snare'', ''hihat'', ''crash'']"

definition steps :: int where
  "steps = 16"

subsection \<open>Property lookup\<close>

text \<open>
  What \<open>o[k]\<close> evaluates to for an object \<open>o\<close> whose prototype is \<open>Object.prototype\<close>: an own
  property, the prototype itself (for \<open>__proto__\<close>), one of the functions of
  \<open>Object.prototype\<close>, a primitive, or \<open>undefined\<close>.
\<close>

datatype 'a looked = Own 'a | ObjectPrototype | Builtin string | Prim prim | Undefined

definition function_names :: "string list" where
  "function_names =
     [''constructor'', ''toString'', ''toLocaleString'', ''valueOf'', ''hasOwnProperty'',
      ''isPrototypeOf'', ''propertyIsEnumerable'', ''__defineGetter__'', ''__defineSetter__'',
      ''__lookupGetter__'', ''__lookupSetter__'']"

definition lookup :: "(string \<rightharpoonup> 'a) \<Rightarrow> (string \<rightharpoonup> bool) \<Rightarrow> string \<Rightarrow> 'a looked" where
  "lookup own op k =
     (case own k of
        Some x \<Rightarrow> Own x
      | None \<Rightarrow>
          if k = ''__proto__'' then ObjectPrototype
          else if k \<in> set function_names then Builtin k
          else case op k of Some b \<Rightarrow> Prim (PBool b) | None \<Rightarrow> Undefined)"

definition truthy_prim :: "prim \<Rightarrow> bool" where
  "truthy_prim p = (case p of PBool b \<Rightarrow> b | PNum x \<Rightarrow> x \<noteq> 0 | PStr str \<Rightarrow> str \<noteq> [])"

definition truthy_looked :: "'a looked \<Rightarrow> bool" where
  "truthy_looked v = (case v of Prim p \<Rightarrow> truthy_prim p | Undefined \<Rightarrow> False | _ \<Rightarrow> True)"

text \<open>
  The property key of an integer: its decimal numeral, which is what JavaScript gives
  for every integer of magnitude below \<open>10^21\<close>.
\<close>

fun digits :: "nat \<Rightarrow> string" where
  "digits n =
     (if n < 10 then [''0123456789'' ! n]
      else digits (n div 10) @ [''0123456789'' ! (n mod 10)])"

declare digits.simps [simp del]

definition key_of :: "int \<Rightarrow> string" where
  "key_of i = (if i < 0 then CHR ''-'' # digits (nat (- i)) else digits (nat i))"

subsection \<open>Arrays, remainder, timers\<close>

definition truthy :: "bool option \<Rightarrow> bool" where
  "truthy v = (case v of None \<Rightarrow> False | Some b \<Rightarrow> b)"

text \<open>
  \<open>a[i]\<close> for an array: the own property, or else what \<open>Object.prototype\<close> has under
  that key.
\<close>

definition row_get :: "beatmaker \<Rightarrow> row \<Rightarrow> int \<Rightarrow> bool option" where
  "row_get s r i = (case cells r i of Some b \<Rightarrow> Some b | None \<Rightarrow> objectProto s (key_of i))"

text \<open>
  \<open>a[i] = v\<close>: the property is written whatever \<open>i\<close> is; the array grows when \<open>i\<close> is an
  array index at or beyond its length.
\<close>

definition row_set :: "row \<Rightarrow> int \<Rightarrow> bool \<Rightarrow> row" where
  "row_set r i v =
     \<lparr>len = (if 0 \<le> i \<and> i < 4294967295 then max (len r) (nat i + 1) else len r),
      cells = (cells r)(i \<mapsto> v)\<rparr>"

text \<open>\<open>a.fill(false)\<close>: every index below the length is set, other properties stay.\<close>

definition fill_false :: "row \<Rightarrow> row" where
  "fill_false r =
     r\<lparr>cells := (\<lambda>i. if 0 \<le> i \<and> i < int (len r) then Some False else cells r i)\<rparr>"

text \<open>\<open>new Array(n).fill(false)\<close>\<close>

definition new_row :: "int \<Rightarrow> row" where
  "new_row n = fill_false \<lparr>len = nat n, cells = Map.empty\<rparr>"

text \<open>JavaScript's \<open>%\<close> on integers: the result has the sign of the dividend.\<close>

definition js_rem :: "int \<Rightarrow> int \<Rightarrow> int" where
  "js_rem a b = sgn a * (\<bar>a\<bar> mod \<bar>b\<bar>)"

text \<open>
  \<open>(60000 / tempo) / 4\<close>, as the exact quotient; \<open>None\<close> stands for the infinite result
  of dividing by a tempo of zero.
\<close>

definition tick_interval :: "int \<Rightarrow> real option" where
  "tick_interval t = (if t = 0 then None else Some ((60000 / real_of_int t) / 4))"

definition setInterval :: "real option \<Rightarrow> beatmaker \<Rightarrow> nat \<times> beatmaker" where
  "setInterval d s =
     (nextTimer s, s\<lparr>timers := timers s @ [(nextTimer s, d)], nextTimer := Suc (nextTimer s)\<rparr>)"

text \<open>\<open>clearInterval(id)\<close>; with \<open>null\<close> no timer is cancelled.\<close>

definition clearInterval :: "nat option \<Rightarrow> beatmaker \<Rightarrow> beatmaker" where
  "clearInterval h s =
     (case h of None \<Rightarrow> s
      | Some n \<Rightarrow> s\<lparr>timers := filter (\<lambda>t. fst t \<noteq> n) (timers s)\<rparr>)"

subsection \<open>Construction\<close>

definition init_soundConfig :: "string \<rightharpoonup> sound_config" where
  "init_soundConfig =
     [''kick'' \<mapsto> \<lparr>frequency = Some 60, wtype = Some sine, decay = Some 0.5, extra = Map.empty\<rparr>,
      ''snare'' \<mapsto> \<lparr>frequency = Some 200, wtype = Some square, decay = Some 0.3, extra = Map.empty\<rparr>,
      ''hihat'' \<mapsto> \<lparr>frequency = Some 8000, wtype = Some square, decay = Some 0.1, extra = Map.empty\<rparr>,
      ''crash'' \<mapsto> \<lparr>frequency = Some 300, wtype = Some sawtooth, decay = Some 1.0, extra = Map.empty\<rparr>]"

text \<open>
  The constructor; \<open>audio\<close> tells whether \<open>initAudioContext\<close> succeeded. Nothing has
  been written on \<open>Object.prototype\<close> or its functions yet.
\<close>

definition init :: "bool \<Rightarrow> beatmaker" where
  "init audio =
     \<lparr>currentStep = 0, isPlaying = False, tempo = 120, intervalId = None,
      pattern = map_of (map (\<lambda>t. (t, new_row steps)) tracks),
      mutedTracks = {}, audioContext = audio, soundConfig = init_soundConfig,
      timers = [], nextTimer = 1, voices = [],
      objectProto = Map.empty, builtinProps = (\<lambda>k. Map.empty)\<rparr>"

text \<open>
  \<open>generateSteps\<close> creates one button per track and step below \<open>steps\<close>; these are the
  elements the selector \<open>[data-track=t][data-step=i]\<close> finds.
\<close>

definition stepBtn_exists :: "string \<Rightarrow> int \<Rightarrow> bool" where
  "stepBtn_exists t i = (t \<in> set tracks \<and> 0 \<le> i \<and> i < steps)"

subsection \<open>Sound\<close>

definition track_filter :: "string \<Rightarrow> (filter_type \<times> int) option" where
  "track_filter t =
     (if t = ''kick'' then Some (lowpass, 100)
      else if t = ''hihat'' then Some (highpass, 5000)
      else None)"

text \<open>
  The voice for a configuration with frequency \<open>f\<close> and decay \<open>d\<close>. Assigning \<open>undefined\<close>
  to the oscillator's type is ignored, which leaves the default, a sine.
\<close>

definition mk_voice :: "string \<Rightarrow> sound_config \<Rightarrow> int \<Rightarrow> real \<Rightarrow> voice" where
  "mk_voice t c f d =
     \<lparr>v_track = t, v_frequency = f,
      v_type = (case wtype c of None \<Rightarrow> sine | Some w \<Rightarrow> w),
      v_filter = track_filter t, v_decay = d\<rparr>"

definition waveform_name :: "waveform \<Rightarrow> string" where
  "waveform_name w =
     (case w of sine \<Rightarrow> ''sine'' | square \<Rightarrow> ''square'' | sawtooth \<Rightarrow> ''sawtooth''
      | triangle \<Rightarrow> ''triangle'')"

text \<open>
  The property \<open>k\<close> of the object that has been made the prototype of \<open>soundConfig\<close>, if
  there is one and it has the property.
\<close>

definition proto_prop :: "sound_config option \<Rightarrow> string \<Rightarrow> prim option" where
  "proto_prop P k =
     (case P of
        None \<Rightarrow> None
      | Some c \<Rightarrow>
          if k = ''frequency'' then map_option (\<lambda>f. PNum (real_of_int f)) (frequency c)
          else if k = ''type'' then map_option (\<lambda>w. PStr (waveform_name w)) (wtype c)
          else if k = ''decay'' then map_option PNum (decay c)
          else extra c k)"

text \<open>\<open>this.soundConfig[k]\<close>\<close>

definition lookup_config :: "beatmaker \<Rightarrow> string \<Rightarrow> sound_config looked" where
  "lookup_config s k =
     (case soundConfig s k of
        Some c \<Rightarrow> Own c
      | None \<Rightarrow>
          (case proto_prop (soundConfig s ''__proto__'') k of
             Some p \<Rightarrow> Prim p
           | None \<Rightarrow> lookup Map.empty (objectProto s) k))"

text \<open>
  \<open>playSound\<close>: nothing without an audio context or with a falsy configuration.
  Otherwise the oscillator's frequency is set from \<open>config.frequency\<close> and the end of
  the envelope from \<open>config.decay\<close>; where the value found has no such property the
  number is \<open>NaN\<close>, which the audio parameter rejects with a TypeError before the
  oscillator is started.
\<close>

definition playSound :: "string \<Rightarrow> beatmaker \<Rightarrow> result" where
  "playSound t s =
     (if \<not> audioContext s then (None, s)
      else case lookup_config s t of
        Undefined \<Rightarrow> (None, s)
      | Prim p \<Rightarrow> if truthy_prim p then (Some TypeError, s) else (None, s)
      | Builtin k \<Rightarrow> (Some TypeError, s)
      | ObjectPrototype \<Rightarrow> (Some TypeError, s)
      | Own c \<Rightarrow>
          (case frequency c of
             None \<Rightarrow> (Some TypeError, s)
           | Some f \<Rightarrow>
               (case decay c of
                  None \<Rightarrow> (Some TypeError, s)
                | Some d \<Rightarrow> (None, s\<lparr>voices := voices s @ [mk_voice t c f d]\<rparr>))))"

subsection \<open>Pattern\<close>

text \<open>The cell of a track's row; a name that has no row has no cell.\<close>

definition isActive :: "beatmaker \<Rightarrow> string \<Rightarrow> int \<Rightarrow> bool" where
  "isActive s t i = (case pattern s t of None \<Rightarrow> False | Some r \<Rightarrow> truthy (row_get s r i))"

text \<open>
  \<open>v[i]\<close> for what \<open>pattern[track]\<close> has evaluated to, other than \<open>undefined\<close>: the own
  property of a row or of a function, or else what \<open>Object.prototype\<close> has under the key.
\<close>

definition read_prop :: "beatmaker \<Rightarrow> row looked \<Rightarrow> int \<Rightarrow> bool option" where
  "read_prop s v i =
     (case v of
        Own r \<Rightarrow> row_get s r i
      | Builtin k \<Rightarrow>
          (case builtinProps s k (key_of i) of
             Some b \<Rightarrow> Some b
           | None \<Rightarrow> objectProto s (key_of i))
      | _ \<Rightarrow> objectProto s (key_of i))"

text \<open>
  Lines 94 to 99 of \<open>toggleStep\<close>, after the cell has been written with \<open>v\<close>: the step
  button is looked up, and a missing one throws; then the sound is auditioned when the
  cell is now set.
\<close>

definition toggleStep_rest :: "string \<Rightarrow> int \<Rightarrow> bool \<Rightarrow> beatmaker \<Rightarrow> result" where
  "toggleStep_rest t i v s1 =
     (if \<not> stepBtn_exists t i then (Some TypeError, s1)
      else if v then playSound t s1
      else (None, s1))"

text \<open>
  \<open>toggleStep\<close>. Where \<open>pattern[track]\<close> is \<open>undefined\<close>, indexing it throws; where it is a
  boolean (inherited from \<open>Object.prototype\<close>), the assignment throws, the code being
  strict; in both cases nothing has been written. Otherwise the negated value is
  written: on the track's row, on the inherited function, or on \<open>Object.prototype\<close>.
\<close>

definition toggleStep :: "string \<Rightarrow> int \<Rightarrow> beatmaker \<Rightarrow> result" where
  "toggleStep t i s =
     (let l = lookup (pattern s) (objectProto s) t;
          v = \<not> truthy (read_prop s l i)
      in case l of
           Undefined \<Rightarrow> (Some TypeError, s)
         | Prim p \<Rightarrow> (Some TypeError, s)
         | Own r \<Rightarrow>
             toggleStep_rest t i v (s\<lparr>pattern := (pattern s)(t \<mapsto> row_set r i v)\<rparr>)
         | Builtin k \<Rightarrow>
             toggleStep_rest t i v
               (s\<lparr>builtinProps := (builtinProps s)(k := (builtinProps s k)(key_of i \<mapsto> v))\<rparr>)
         | ObjectPrototype \<Rightarrow>
             toggleStep_rest t i v (s\<lparr>objectProto := (objectProto s)(key_of i \<mapsto> v)\<rparr>))"

subsection \<open>Transport\<close>

definition play :: "beatmaker \<Rightarrow> beatmaker" where
  "play s =
     (let s1 = s\<lparr>isPlaying := True\<rparr>;
          interval = tick_interval (tempo s1);
          (h, s2) = setInterval interval s1
      in s2\<lparr>intervalId := Some h\<rparr>)"

text \<open>\<open>if (this.intervalId)\<close>: a handle other than \<open>null\<close> and \<open>0\<close>.\<close>

definition pause :: "beatmaker \<Rightarrow> beatmaker" where
  "pause s =
     (let s1 = s\<lparr>isPlaying := False\<rparr>
      in case intervalId s1 of
           None \<Rightarrow> s1
         | Some h \<Rightarrow>
             if h \<noteq> 0 then (clearInterval (Some h) s1)\<lparr>intervalId := None\<rparr> else s1)"

definition stop :: "beatmaker \<Rightarrow> beatmaker" where
  "stop s = (pause s)\<lparr>currentStep := 0\<rparr>"

definition togglePlay :: "beatmaker \<Rightarrow> beatmaker" where
  "togglePlay s = (if isPlaying s then pause s else play s)"

text \<open>
  The body of the \<open>forEach\<close> callback of \<open>playStep\<close> for one track: a missing step
  button throws, and so does indexing \<open>undefined\<close>.
\<close>

definition playStep_track :: "string \<Rightarrow> beatmaker \<Rightarrow> result" where
  "playStep_track t s =
     (if \<not> stepBtn_exists t (currentStep s) then (Some TypeError, s)
      else case lookup (pattern s) (objectProto s) t of
        Undefined \<Rightarrow> (Some TypeError, s)
      | l \<Rightarrow>
          if truthy (read_prop s l (currentStep s)) \<and> t \<notin> mutedTracks s
          then playSound t s
          else (None, s))"

fun playStep_tracks :: "string list \<Rightarrow> beatmaker \<Rightarrow> result" where
  "playStep_tracks [] s = (None, s)"
| "playStep_tracks (t # ts) s = and_then (playStep_track t s) (playStep_tracks ts)"

definition playStep :: "beatmaker \<Rightarrow> result" where
  "playStep s =
     and_then (playStep_tracks tracks s)
       (\<lambda>s1. (None, s1\<lparr>currentStep := js_rem (currentStep s1 + 1) steps\<rparr>))"

subsection \<open>Mute, sound variants, tempo, clear\<close>

text \<open>
  \<open>toggleMute\<close>, for a name that is well-formed inside the quotes of the selector: the
  set is updated before the class of the mute button is, so where the page has no mute
  button for the name the method throws with the set already updated. The function
  gives the state after the call.
\<close>

definition toggleMute :: "string \<Rightarrow> beatmaker \<Rightarrow> beatmaker" where
  "toggleMute t s =
     (if t \<in> mutedTracks s then s\<lparr>mutedTracks := mutedTracks s - {t}\<rparr>
      else s\<lparr>mutedTracks := insert t (mutedTracks s)\<rparr>)"

definition variations :: "string \<rightharpoonup> variation" where
  "variations =
     [''kick1'' \<mapsto> \<lparr>var_frequency = 60, var_type = sine\<rparr>,
      ''kick2'' \<mapsto> \<lparr>var_frequency = 40, var_type = triangle\<rparr>,
      ''kick3'' \<mapsto> \<lparr>var_frequency = 80, var_type = square\<rparr>,
      ''snare1'' \<mapsto> \<lparr>var_frequency = 200, var_type = square\<rparr>,
      ''snare2'' \<mapsto> \<lparr>var_frequency = 300, var_type = sawtooth\<rparr>,
      ''snare3'' \<mapsto> \<lparr>var_frequency = 150, var_type = triangle\<rparr>,
      ''hihat1'' \<mapsto> \<lparr>var_frequency = 8000, var_type = square\<rparr>,
      ''hihat2'' \<mapsto> \<lparr>var_frequency = 10000, var_type = sawtooth\<rparr>,
      ''hihat3'' \<mapsto> \<lparr>var_frequency = 6000, var_type = triangle\<rparr>,
      ''crash1'' \<mapsto> \<lparr>var_frequency = 300, var_type = sawtooth\<rparr>,
      ''crash2'' \<mapsto> \<lparr>var_frequency = 400, var_type = square\<rparr>]"

text \<open>The own enumerable properties of a value, which a spread copies.\<close>

definition string_chars :: "string \<Rightarrow> string \<rightharpoonup> prim" where
  "string_chars str k =
     (case filter (\<lambda>n. key_of (int n) = k) [0..<length str] of
        [] \<Rightarrow> None
      | n # _ \<Rightarrow> Some (PStr [str ! n]))"

definition no_props :: sound_config where
  "no_props = \<lparr>frequency = None, wtype = None, decay = None, extra = Map.empty\<rparr>"

definition props :: "beatmaker \<Rightarrow> sound_config looked \<Rightarrow> sound_config" where
  "props s v =
     (case v of
        Own c \<Rightarrow> c
      | ObjectPrototype \<Rightarrow> no_props\<lparr>extra := map_option PBool \<circ> objectProto s\<rparr>
      | Builtin k \<Rightarrow> no_props\<lparr>extra := map_option PBool \<circ> builtinProps s k\<rparr>
      | Prim (PStr str) \<Rightarrow> no_props\<lparr>extra := string_chars str\<rparr>
      | _ \<Rightarrow> no_props)"

definition var_props :: "variation \<Rightarrow> sound_config" where
  "var_props v =
     \<lparr>frequency = Some (var_frequency v), wtype = Some (var_type v), decay = None,
      extra = Map.empty\<rparr>"

text \<open>\<open>{ ...a, ...b }\<close>\<close>

definition spread :: "sound_config \<Rightarrow> sound_config \<Rightarrow> sound_config" where
  "spread a b =
     \<lparr>frequency = (case frequency b of Some f \<Rightarrow> Some f | None \<Rightarrow> frequency a),
      wtype = (case wtype b of Some w \<Rightarrow> Some w | None \<Rightarrow> wtype a),
      decay = (case decay b of Some d \<Rightarrow> Some d | None \<Rightarrow> decay a),
      extra = extra a ++ extra b\<rparr>"

text \<open>
  \<open>changeSound\<close>: \<open>variations[soundId]\<close> is truthy for an entry of the table, and also for
  what the table inherits from \<open>Object.prototype\<close>. The new object is assigned to
  \<open>soundConfig[track]\<close>; for the key \<open>__proto__\<close> that makes it the prototype of
  \<open>soundConfig\<close>.
\<close>

definition changeSound :: "string \<Rightarrow> string \<Rightarrow> beatmaker \<Rightarrow> beatmaker" where
  "changeSound t soundId s =
     (let v = lookup variations (objectProto s) soundId
      in if truthy_looked v
         then s\<lparr>soundConfig := (soundConfig s)
                  (t \<mapsto> spread (props s (lookup_config s t)) (props s (map_looked var_props v)))\<rparr>
         else s)"

text \<open>
  \<open>updateTempo\<close>; the argument is the integer that \<open>parseInt\<close> reads from the slider's
  value.
\<close>

definition updateTempo :: "int \<Rightarrow> beatmaker \<Rightarrow> beatmaker" where
  "updateTempo newTempo s =
     (let s1 = s\<lparr>tempo := newTempo\<rparr>
      in if isPlaying s1
         then (let s2 = clearInterval (intervalId s1) s1;
                   interval = tick_interval (tempo s2);
                   (h, s3) = setInterval interval s2
               in s3\<lparr>intervalId := Some h\<rparr>)
         else s1)"

text \<open>
  The loop of \<open>clearAll\<close>: only a row has the method \<open>fill\<close>; with anything else that
  \<open>pattern[track]\<close> may be, the call throws.
\<close>

fun clear_tracks :: "string list \<Rightarrow> beatmaker \<Rightarrow> result" where
  "clear_tracks [] s = (None, s)"
| "clear_tracks (t # ts) s =
     (case pattern s t of
        None \<Rightarrow> (Some TypeError, s)
      | Some r \<Rightarrow> clear_tracks ts (s\<lparr>pattern := (pattern s)(t \<mapsto> fill_false r)\<rparr>))"

definition clearAll :: "beatmaker \<Rightarrow> result" where
  "clearAll s = and_then (clear_tracks tracks s) (\<lambda>s1. (None, stop s1))"

subsection \<open>Events\<close>

text \<open>
  The handlers that \<open>setupEventListeners\<close>, \<open>generateSteps\<close> and the key listener
  register, and the timer callback. A handler that throws leaves the state as it
  was at the throw. A tick happens only while a timer is live.
\<close>

datatype event =
    ClickStep string int
  | TogglePlay
  | Stop
  | ClearAll
  | InputTempo int
  | ClickMute string
  | SelectSound string string
  | Tick

fun handle :: "event \<Rightarrow> beatmaker \<Rightarrow> beatmaker" where
  "handle (ClickStep t i) s = snd (toggleStep t i s)"
| "handle TogglePlay s = togglePlay s"
| "handle Stop s = stop s"
| "handle ClearAll s = snd (clearAll s)"
| "handle (InputTempo n) s = updateTempo n s"
| "handle (ClickMute t) s = toggleMute t s"
| "handle (SelectSound t v) s = changeSound t v s"
| "handle Tick s = (if timers s = [] then s else snd (playStep s))"

fun run :: "event list \<Rightarrow> beatmaker \<Rightarrow> beatmaker" where
  "run [] s = s"
| "run (e # es) s = run es (handle e s)"

subsection \<open>Invariants of the reachable states\<close>

text \<open>
  Every track has a row whose first sixteen cells are defined, and no other key has a
  row; every track has a sound configuration with a frequency and a decay; the step counter is inside
  the loop; and while playing exactly one timer is live, the one \<open>intervalId\<close> names,
  while none is live otherwise.
\<close>

definition pattern_ok :: "beatmaker \<Rightarrow> bool" where
  "pattern_ok s \<longleftrightarrow>
     (\<forall>t. case pattern s t of
            None \<Rightarrow> t \<notin> set tracks
          | Some r \<Rightarrow> t \<in> set tracks \<and> 16 \<le> len r \<and> (\<forall>i. 0 \<le> i \<and> i < 16 \<longrightarrow> cells r i \<noteq> None))"

definition config_ok :: "beatmaker \<Rightarrow> bool" where
  "config_ok s \<longleftrightarrow>
     (\<forall>t\<in>set tracks. \<exists>c. soundConfig s t = Some c \<and> frequency c \<noteq> None \<and> decay c \<noteq> None)"

definition step_ok :: "beatmaker \<Rightarrow> bool" where
  "step_ok s \<longleftrightarrow> 0 \<le> currentStep s \<and> currentStep s < steps"

definition timer_ok :: "beatmaker \<Rightarrow> bool" where
  "timer_ok s \<longleftrightarrow>
     0 < nextTimer s \<and>
     (isPlaying s \<longrightarrow>
        (\<exists>h d. timers s = [(h, d)] \<and> intervalId s = Some h \<and> 0 < h \<and> h < nextTimer s)) \<and>
     (\<not> isPlaying s \<longrightarrow> timers s = [])"

definition state_ok :: "beatmaker \<Rightarrow> bool" where
  "state_ok s \<longleftrightarrow> pattern_ok s \<and> config_ok s \<and> step_ok s \<and> timer_ok s"

text \<open>Calling \<open>playSound\<close> for each track of a list in turn.\<close>

fun playSounds :: "string list \<Rightarrow> beatmaker \<Rightarrow> result" where
  "playSounds [] s = (None, s)"
| "playSounds (t # ts) s = and_then (playSound t s) (playSounds ts)"

text \<open>The tracks that sound at the current step: cell set and track not muted.\<close>

definition fires :: "beatmaker \<Rightarrow> string \<Rightarrow> bool" where
  "fires s t = (isActive s t (currentStep s) \<and> t \<notin> mutedTracks s)"

section \<open>Preservation of the invariants\<close>

lemma lookup_Own: "own k = Some x \<Longrightarrow> lookup own op k = Own x"
  by (simp add: lookup_def)

lemma lookup_Own_iff: "lookup own op k = Own x \<longleftrightarrow> own k = Some x"
  by (auto simp: lookup_def split: option.splits if_splits)

lemma lookup_config_Own: "soundConfig s k = Some c \<Longrightarrow> lookup_config s k = Own c"
  by (simp add: lookup_config_def)

lemma playSound_frame: "\<exists>vs. snd (playSound t s) = s\<lparr>voices := vs\<rparr>"
  by (auto simp: playSound_def split: option.splits looked.splits intro: exI[of _ "voices s"])

lemma pattern_ok_voices [simp]: "pattern_ok (s\<lparr>voices := vs\<rparr>) = pattern_ok s"
  by (simp add: pattern_ok_def)
lemma config_ok_voices [simp]: "config_ok (s\<lparr>voices := vs\<rparr>) = config_ok s"
  by (simp add: config_ok_def)
lemma step_ok_voices [simp]: "step_ok (s\<lparr>voices := vs\<rparr>) = step_ok s"
  by (simp add: step_ok_def)
lemma timer_ok_voices [simp]: "timer_ok (s\<lparr>voices := vs\<rparr>) = timer_ok s"
  by (simp add: timer_ok_def)
lemma state_ok_voices [simp]: "state_ok (s\<lparr>voices := vs\<rparr>) = state_ok s"
  by (simp add: state_ok_def)

lemma state_ok_objectProto [simp]: "state_ok (s\<lparr>objectProto := x\<rparr>) = state_ok s"
  by (simp add: state_ok_def pattern_ok_def config_ok_def step_ok_def timer_ok_def)
lemma state_ok_builtinProps [simp]: "state_ok (s\<lparr>builtinProps := x\<rparr>) = state_ok s"
  by (simp add: state_ok_def pattern_ok_def config_ok_def step_ok_def timer_ok_def)

lemma state_ok_playSound: "state_ok (snd (playSound t s)) = state_ok s"
proof -
  obtain vs where "snd (playSound t s) = s\<lparr>voices := vs\<rparr>"
    using playSound_frame by blast
  then show ?thesis by simp
qed

lemma playSound_ok:
  assumes "config_ok s" and "t \<in> set tracks"
  shows "fst (playSound t s) = None"
proof -
  from assms obtain c f d where "soundConfig s t = Some c" "frequency c = Some f" "decay c = Some d"
    by (auto simp: config_ok_def)
  then show ?thesis
    by (simp add: playSound_def lookup_config_Own)
qed

lemma pattern_ok_init: "pattern_ok (init a)"
  by (auto simp: pattern_ok_def init_def tracks_def new_row_def fill_false_def steps_def split: option.splits)

lemma config_ok_init: "config_ok (init a)"
  by (simp add: config_ok_def init_def tracks_def init_soundConfig_def del: not_None_eq)

lemma state_ok_init: "state_ok (init a)"
  by (simp add: state_ok_def pattern_ok_init config_ok_init) (simp add: step_ok_def timer_ok_def init_def steps_def)

lemma pattern_ok_upd:
  assumes "pattern_ok s" and "pattern s t = Some r"
    and "len r \<le> len r'" and "\<forall>i. cells r i \<noteq> None \<longrightarrow> cells r' i \<noteq> None"
  shows "pattern_ok (s\<lparr>pattern := (pattern s)(t \<mapsto> r')\<rparr>)"
  unfolding pattern_ok_def
proof
  fix u
  from assms(1) have a: "case pattern s u of
            None \<Rightarrow> u \<notin> set tracks
          | Some r \<Rightarrow> u \<in> set tracks \<and> 16 \<le> len r \<and> (\<forall>i. 0 \<le> i \<and> i < 16 \<longrightarrow> cells r i \<noteq> None)"
    unfolding pattern_ok_def by blast
  show "case pattern (s\<lparr>pattern := (pattern s)(t \<mapsto> r')\<rparr>) u of
            None \<Rightarrow> u \<notin> set tracks
          | Some r \<Rightarrow> u \<in> set tracks \<and> 16 \<le> len r \<and> (\<forall>i. 0 \<le> i \<and> i < 16 \<longrightarrow> cells r i \<noteq> None)"
  proof (cases "u = t")
    case True
    with a assms(2,3,4) show ?thesis by simp
  next
    case False
    with a show ?thesis by simp
  qed
qed

lemma state_ok_pattern_upd:
  assumes "state_ok s" and "pattern s t = Some r"
    and "len r \<le> len r'" and "\<forall>i. cells r i \<noteq> None \<longrightarrow> cells r' i \<noteq> None"
  shows "state_ok (s\<lparr>pattern := (pattern s)(t \<mapsto> r')\<rparr>)"
proof -
  have "pattern_ok (s\<lparr>pattern := (pattern s)(t \<mapsto> r')\<rparr>)"
    using assms pattern_ok_upd by (simp add: state_ok_def)
  with assms(1) show ?thesis
    by (simp add: state_ok_def config_ok_def step_ok_def timer_ok_def)
qed

lemma state_ok_toggleStep_rest:
  "state_ok s1 \<Longrightarrow> state_ok (snd (toggleStep_rest t i v s1))"
  by (simp add: toggleStep_rest_def state_ok_playSound)

lemma state_ok_toggleStep: "state_ok s \<Longrightarrow> state_ok (snd (toggleStep t i s))"
proof -
  assume ok: "state_ok s"
  show ?thesis
  proof (cases "lookup (pattern s) (objectProto s) t")
    case (Own r)
    then have r: "pattern s t = Some r" by (simp add: lookup_Own_iff)
    have "state_ok (s\<lparr>pattern := (pattern s)(t \<mapsto> row_set r i v)\<rparr>)" for v
      using ok r by (rule state_ok_pattern_upd) (simp_all add: row_set_def)
    then show ?thesis
      using Own by (simp add: toggleStep_def Let_def state_ok_toggleStep_rest)
  qed (simp_all add: toggleStep_def Let_def state_ok_toggleStep_rest ok)
qed

lemma state_ok_clear_tracks: "state_ok s \<Longrightarrow> state_ok (snd (clear_tracks ts s))"
proof (induction ts arbitrary: s)
  case Nil
  then show ?case by simp
next
  case (Cons t ts)
  show ?case
  proof (cases "pattern s t")
    case None
    with Cons.prems show ?thesis by simp
  next
    case (Some r)
    have "state_ok (s\<lparr>pattern := (pattern s)(t \<mapsto> fill_false r)\<rparr>)"
      using Cons.prems Some by (intro state_ok_pattern_upd) (auto simp: fill_false_def)
    with Some Cons.IH show ?thesis by simp
  qed
qed

lemma state_ok_pause: "state_ok s \<Longrightarrow> state_ok (pause s)"
  by (auto simp: state_ok_def pause_def pattern_ok_def config_ok_def step_ok_def timer_ok_def
      clearInterval_def Let_def split: option.splits if_splits)

lemma state_ok_stop: "state_ok s \<Longrightarrow> state_ok (stop s)"
  using state_ok_pause [of s]
  by (simp add: stop_def state_ok_def pattern_ok_def config_ok_def step_ok_def timer_ok_def steps_def)

lemma state_ok_togglePlay: "state_ok s \<Longrightarrow> state_ok (togglePlay s)"
  by (auto simp: togglePlay_def state_ok_pause)
    (auto simp: state_ok_def play_def setInterval_def pattern_ok_def config_ok_def step_ok_def timer_ok_def Let_def)

lemma state_ok_updateTempo: "state_ok s \<Longrightarrow> state_ok (updateTempo n s)"
  by (auto simp: state_ok_def updateTempo_def setInterval_def clearInterval_def pattern_ok_def
      config_ok_def step_ok_def timer_ok_def Let_def)

lemma state_ok_toggleMute: "state_ok s \<Longrightarrow> state_ok (toggleMute t s)"
  by (simp add: state_ok_def toggleMute_def pattern_ok_def config_ok_def step_ok_def timer_ok_def)

lemma props_Own [simp]: "props s (Own c) = c"
  by (simp add: props_def)

lemma spread_keeps:
  "frequency a \<noteq> None \<Longrightarrow> frequency (spread a b) \<noteq> None"
  "decay a \<noteq> None \<Longrightarrow> decay (spread a b) \<noteq> None"
  by (simp_all add: spread_def split: option.splits)

lemma config_ok_changeSound: "config_ok s \<Longrightarrow> config_ok (changeSound t v s)"
proof -
  assume ok: "config_ok s"
  show ?thesis
  proof (cases "truthy_looked (lookup variations (objectProto s) v)")
    case False
    with ok show ?thesis by (simp add: changeSound_def Let_def)
  next
    case True
    show ?thesis
      unfolding config_ok_def
    proof
      fix u assume u: "u \<in> set tracks"
      with ok obtain c where c: "soundConfig s u = Some c" "frequency c \<noteq> None" "decay c \<noteq> None"
        by (auto simp: config_ok_def)
      show "\<exists>c. soundConfig (changeSound t v s) u = Some c \<and> frequency c \<noteq> None \<and> decay c \<noteq> None"
      proof (cases "u = t")
        case False
        with c True show ?thesis by (simp add: changeSound_def Let_def)
      next
        case eq: True
        have "lookup_config s t = Own c" using c eq by (simp add: lookup_config_Own)
        then show ?thesis
          using c True eq by (simp add: changeSound_def Let_def spread_keeps del: not_None_eq)
      qed
    qed
  qed
qed

lemma changeSound_frame: "\<exists>m. changeSound t v s = s\<lparr>soundConfig := m\<rparr>"
  by (cases "truthy_looked (lookup variations (objectProto s) v)")
     (auto simp: changeSound_def Let_def intro: exI [of _ "soundConfig s"])

lemma state_ok_changeSound: "state_ok s \<Longrightarrow> state_ok (changeSound t v s)"
proof -
  assume ok: "state_ok s"
  obtain m where m: "changeSound t v s = s\<lparr>soundConfig := m\<rparr>"
    using changeSound_frame by blast
  have "config_ok (changeSound t v s)"
    using ok by (simp add: state_ok_def config_ok_changeSound)
  with ok show ?thesis
    unfolding m by (simp add: state_ok_def pattern_ok_def step_ok_def timer_ok_def)
qed

lemma state_ok_clearAll: "state_ok s \<Longrightarrow> state_ok (snd (clearAll s))"
  using state_ok_clear_tracks [of s tracks]
  by (cases "clear_tracks tracks s") (auto simp: clearAll_def and_then_def state_ok_stop split: option.splits)

lemma state_ok_playStep_track: "state_ok (snd (playStep_track t s)) = state_ok s"
  by (simp add: playStep_track_def state_ok_playSound split: looked.splits)

lemma state_ok_playStep_tracks: "state_ok s \<Longrightarrow> state_ok (snd (playStep_tracks ts s))"
proof (induction ts arbitrary: s)
  case Nil
  then show ?case by simp
next
  case (Cons t ts)
  have "state_ok (snd (playStep_track t s))"
    using Cons.prems by (simp add: state_ok_playStep_track)
  then show ?case
    using Cons.IH [of "snd (playStep_track t s)"]
    by (cases "playStep_track t s") (auto simp: and_then_def split: option.splits)
qed

lemma js_rem_step: "0 \<le> c \<Longrightarrow> js_rem (c + 1) steps = (c + 1) mod 16"
  by (simp add: js_rem_def steps_def sgn_if)

lemma state_ok_advance: "state_ok s \<Longrightarrow> state_ok (s\<lparr>currentStep := js_rem (currentStep s + 1) steps\<rparr>)"
  by (simp add: state_ok_def pattern_ok_def config_ok_def timer_ok_def)
     (simp add: step_ok_def js_rem_step, simp add: steps_def)

lemma state_ok_playStep: "state_ok s \<Longrightarrow> state_ok (snd (playStep s))"
  using state_ok_playStep_tracks [of s tracks]
  by (cases "playStep_tracks tracks s") (auto simp: playStep_def and_then_def state_ok_advance split: option.splits)

lemma state_ok_handle: "state_ok s \<Longrightarrow> state_ok (handle e s)"
  by (cases e) (simp_all add: state_ok_toggleStep state_ok_togglePlay state_ok_stop state_ok_clearAll state_ok_updateTempo
      state_ok_toggleMute state_ok_changeSound state_ok_playStep)

lemma state_ok_run: "state_ok s \<Longrightarrow> state_ok (run es s)"
  by (induction es arbitrary: s) (simp_all add: state_ok_handle)

lemma state_ok_reach: "state_ok (run es (init a))"
  by (simp add: state_ok_run state_ok_init)

section \<open>What a tick does\<close>

lemma audioContext_playSound [simp]: "audioContext (snd (playSound t s)) = audioContext s"
  using playSound_frame [of t s] by auto

lemma row_get_voices [simp]: "row_get (s\<lparr>voices := vs\<rparr>) r i = row_get s r i"
  by (simp add: row_get_def split: option.splits)

lemma isActive_voices [simp]: "isActive (s\<lparr>voices := vs\<rparr>) t i = isActive s t i"
  by (simp add: isActive_def split: option.splits)

lemma fires_voices [simp]: "fires (s\<lparr>voices := vs\<rparr>) = fires s"
  by (simp add: fires_def fun_eq_iff)

lemma fires_playSound [simp]: "fires (snd (playSound u s)) = fires s"
  using playSound_frame [of u s] by auto

lemma pattern_ok_playSound [simp]: "pattern_ok (snd (playSound u s)) = pattern_ok s"
  using playSound_frame [of u s] by auto

lemma step_ok_playSound [simp]: "step_ok (snd (playSound u s)) = step_ok s"
  using playSound_frame [of u s] by auto

lemma config_ok_playSound [simp]: "config_ok (snd (playSound u s)) = config_ok s"
  using playSound_frame [of u s] by auto

lemma currentStep_playSound [simp]: "currentStep (snd (playSound u s)) = currentStep s"
  using playSound_frame [of u s] by auto

lemma pattern_ok_Some: "pattern_ok s \<Longrightarrow> t \<in> set tracks \<Longrightarrow> \<exists>r. pattern s t = Some r"
  unfolding pattern_ok_def by (erule allE [of _ t]) (simp split: option.splits)

lemma pattern_ok_None: "pattern_ok s \<Longrightarrow> t \<notin> set tracks \<Longrightarrow> pattern s t = None"
  unfolding pattern_ok_def by (erule allE [of _ t]) (simp split: option.splits)

lemma pattern_ok_cell:
  "pattern_ok s \<Longrightarrow> pattern s t = Some r \<Longrightarrow> 0 \<le> i \<Longrightarrow> i < 16 \<Longrightarrow> \<exists>b. cells r i = Some b"
  unfolding pattern_ok_def by (erule allE [of _ t]) simp

lemma pattern_ok_len: "pattern_ok s \<Longrightarrow> pattern s t = Some r \<Longrightarrow> 16 \<le> len r"
  unfolding pattern_ok_def by (erule allE [of _ t]) simp

lemma playStep_track_fires:
  assumes "pattern_ok s" and "step_ok s" and "t \<in> set tracks"
  shows "playStep_track t s = (if fires s t then playSound t s else (None, s))"
proof -
  obtain r where "pattern s t = Some r"
    using assms pattern_ok_Some by blast
  moreover have "stepBtn_exists t (currentStep s)"
    using assms by (simp add: stepBtn_exists_def step_ok_def)
  ultimately show ?thesis
    by (simp add: playStep_track_def fires_def isActive_def lookup_Own read_prop_def)
qed

lemma playStep_tracks_playSounds:
  assumes "pattern_ok s" and "step_ok s" and "set ts \<subseteq> set tracks"
  shows "playStep_tracks ts s = playSounds (filter (fires s) ts) s"
  using assms
proof (induction ts arbitrary: s)
  case Nil
  then show ?case by simp
next
  case (Cons t ts)
  have head: "playStep_track t s = (if fires s t then playSound t s else (None, s))"
    using Cons.prems by (simp add: playStep_track_fires)
  show ?case
  proof (cases "fires s t")
    case False
    with head Cons show ?thesis by (simp add: and_then_def)
  next
    case True
    let ?s' = "snd (playSound t s)"
    have ih: "playStep_tracks ts ?s' = playSounds (filter (fires s) ts) ?s'"
      using Cons.IH [of ?s'] Cons.prems by simp
    show ?thesis
      using True head ih
      by (cases "playSound t s") (simp add: and_then_def split: option.splits)
  qed
qed

lemma playSounds_voices:
  assumes "config_ok s" and "set ts \<subseteq> set tracks"
  shows "fst (playSounds ts s) = None \<and>
         (\<exists>new. snd (playSounds ts s) = s\<lparr>voices := voices s @ new\<rparr> \<and>
            map v_track new = (if audioContext s then ts else []))"
  using assms
proof (induction ts arbitrary: s)
  case Nil
  then show ?case by simp
next
  case (Cons t ts)
  from Cons.prems obtain c f d where
    c: "soundConfig s t = Some c" "frequency c = Some f" "decay c = Some d"
    by (auto simp: config_ok_def)
  show ?case
  proof (cases "audioContext s")
    case False
    then have ps: "playSound t s = (None, s)" by (simp add: playSound_def)
    from Cons.IH [of s] Cons.prems False obtain new where
      "fst (playSounds ts s) = None" "snd (playSounds ts s) = s\<lparr>voices := voices s @ new\<rparr>"
      "map v_track new = []"
      by auto
    with ps False show ?thesis by (simp add: and_then_def)
  next
    case True
    let ?s' = "s\<lparr>voices := voices s @ [mk_voice t c f d]\<rparr>"
    have ps: "playSound t s = (None, ?s')"
      using True c by (simp add: playSound_def lookup_config_Own)
    have "config_ok ?s'" using Cons.prems by simp
    with Cons.IH [of ?s'] Cons.prems obtain new where
      n: "fst (playSounds ts ?s') = None" "snd (playSounds ts ?s') = ?s'\<lparr>voices := voices ?s' @ new\<rparr>"
        "map v_track new = ts"
      using True by auto
    have "snd (playSounds (t # ts) s) = s\<lparr>voices := voices s @ (mk_voice t c f d # new)\<rparr>"
      using ps n by (simp add: and_then_def)
    moreover have "map v_track (mk_voice t c f d # new) = t # ts"
      using n by (simp add: mk_voice_def)
    moreover have "fst (playSounds (t # ts) s) = None"
      using ps n by (simp add: and_then_def)
    ultimately show ?thesis using True
      by (intro conjI exI [of _ "mk_voice t c f d # new"]) simp_all
  qed
qed

lemma state_ok_parts: "state_ok s \<Longrightarrow> pattern_ok s \<and> config_ok s \<and> step_ok s \<and> timer_ok s"
  by (simp add: state_ok_def)

lemma playStep_parts:
  assumes "pattern_ok s" and "config_ok s" and "step_ok s"
  shows "\<exists>new. playStep s =
           (None, s\<lparr>voices := voices s @ new, currentStep := (currentStep s + 1) mod 16\<rparr>) \<and>
           map v_track new = (if audioContext s then filter (fires s) tracks else [])"
proof -
  let ?L = "filter (fires s) tracks"
  have a: "playStep_tracks tracks s = playSounds ?L s"
    using assms by (intro playStep_tracks_playSounds) simp_all
  have "config_ok s" using assms by simp
  then obtain new where n: "fst (playSounds ?L s) = None"
      "snd (playSounds ?L s) = s\<lparr>voices := voices s @ new\<rparr>"
      "map v_track new = (if audioContext s then ?L else [])"
    using playSounds_voices [of s ?L] by auto
  have "0 \<le> currentStep s" using assms by (simp add: step_ok_def)
  then have "js_rem (currentStep s + 1) steps = (currentStep s + 1) mod 16"
    by (rule js_rem_step)
  then have "playStep s = (None, s\<lparr>voices := voices s @ new, currentStep := (currentStep s + 1) mod 16\<rparr>)"
    using a n by (cases "playSounds ?L s") (simp add: playStep_def and_then_def)
  with n(3) show ?thesis
    by (intro exI [of _ new]) simp
qed

lemma playStep_reach:
  assumes "state_ok s"
  shows "\<exists>new. playStep s =
           (None, s\<lparr>voices := voices s @ new, currentStep := (currentStep s + 1) mod 16\<rparr>) \<and>
           map v_track new = (if audioContext s then filter (fires s) tracks else [])"
  using assms by (intro playStep_parts) (simp_all add: state_ok_def)

lemma audioContext_toggleStep [simp]: "audioContext (snd (toggleStep t i s)) = audioContext s"
  by (simp add: toggleStep_def toggleStep_rest_def Let_def split: looked.splits)

lemma audioContext_run [simp]: "audioContext (run es s) = audioContext s"
proof (induction es arbitrary: s)
  case Nil
  then show ?case by simp
next
  case (Cons e es)
  have "audioContext (handle e s) = audioContext s"
  proof (cases e)
    case (ClickStep t i)
    then show ?thesis by simp
  next
    case (SelectSound t v)
    obtain m where "changeSound t v s = s\<lparr>soundConfig := m\<rparr>"
      using changeSound_frame by blast
    then show ?thesis using SelectSound by simp
  next
    case ClearAll
    have "audioContext (snd (clear_tracks ts s)) = audioContext s" for ts s
      by (induction ts arbitrary: s) (simp_all split: option.splits)
    then have "audioContext (snd (clear_tracks tracks s)) = audioContext s" .
    then show ?thesis using ClearAll
      by (cases "clear_tracks tracks s")
         (auto simp: clearAll_def and_then_def stop_def pause_def clearInterval_def Let_def split: option.splits)
  next
    case Tick
    have "audioContext (snd (playStep_tracks ts s)) = audioContext s" for ts s
    proof (induction ts arbitrary: s)
      case Nil
      then show ?case by simp
    next
      case (Cons t ts)
      have "audioContext (snd (playStep_track t s)) = audioContext s"
        by (simp add: playStep_track_def split: looked.splits)
      then show ?case using Cons [of "snd (playStep_track t s)"]
        by (cases "playStep_track t s") (auto simp: and_then_def split: option.splits)
    qed
    then have "audioContext (snd (playStep_tracks tracks s)) = audioContext s" .
    then show ?thesis using Tick
      by (cases "playStep_tracks tracks s") (auto simp: playStep_def and_then_def split: option.splits)
  qed (simp_all add: togglePlay_def stop_def pause_def play_def clearInterval_def setInterval_def
        updateTempo_def toggleMute_def Let_def split: option.splits)
  with Cons show ?case by simp
qed

section \<open>Consecutive ticks\<close>

lemma playStep_state:
  assumes "state_ok s"
  shows "fst (playStep s) = None"
    and "isPlaying (snd (playStep s)) = isPlaying s"
    and "timers (snd (playStep s)) = timers s"
    and "currentStep (snd (playStep s)) = (currentStep s + 1) mod 16"
    and "mutedTracks (snd (playStep s)) = mutedTracks s"
    and "pattern (snd (playStep s)) = pattern s"
  using playStep_reach [OF assms] by auto

lemma timers_playing: "state_ok s \<Longrightarrow> isPlaying s \<Longrightarrow> timers s \<noteq> []"
  by (auto simp: state_ok_def timer_ok_def)

lemma ticks_currentStep:
  assumes "state_ok s" and "isPlaying s"
  shows "currentStep (run (replicate n Tick) s) = (currentStep s + int n) mod 16"
  using assms
proof (induction n arbitrary: s)
  case 0
  then show ?case by (simp add: state_ok_def step_ok_def steps_def)
next
  case (Suc n)
  let ?s' = "snd (playStep s)"
  have h: "handle Tick s = ?s'"
    using Suc.prems timers_playing by simp
  have "state_ok ?s'" using Suc.prems by (simp add: state_ok_playStep)
  moreover have "isPlaying ?s'" using Suc.prems by (simp add: playStep_state)
  ultimately have "currentStep (run (replicate n Tick) ?s') = (currentStep ?s' + int n) mod 16"
    by (rule Suc.IH)
  also have "currentStep ?s' = (currentStep s + 1) mod 16"
    using Suc.prems by (simp add: playStep_state)
  finally show ?case
    using h by (simp add: mod_simps algebra_simps)
qed

section \<open>The tick (C4)\<close>

text \<open>
  C4. In every state the event handlers can reach, a tick goes through the tracks in
  their fixed order and calls \<open>playSound\<close> for exactly the tracks whose cell at the
  current step is set and which are not muted, so with an audio context the voices it
  starts are those tracks', in order; nothing is thrown; then the step counter becomes
  \<open>(currentStep + 1) mod 16\<close>. While playing, \<open>n\<close> consecutive ticks move the counter to
  \<open>(currentStep + n) mod 16\<close>: no step is skipped.
\<close>

theorem tick_fires_unmuted_active_and_advances:
  assumes "s = run es (init a)"
  shows "(\<exists>new. playStep s =
            (None, s\<lparr>voices := voices s @ new, currentStep := (currentStep s + 1) mod 16\<rparr>) \<and>
            map v_track new =
              (if a then filter (\<lambda>t. isActive s t (currentStep s) \<and> t \<notin> mutedTracks s) tracks
               else [])) \<and>
         playStep_tracks tracks s =
           playSounds (filter (\<lambda>t. isActive s t (currentStep s) \<and> t \<notin> mutedTracks s) tracks) s \<and>
         (isPlaying s \<longrightarrow>
            currentStep (run (replicate n Tick) s) = (currentStep s + int n) mod 16)"
proof -
  have i: "state_ok s" using assms by (simp add: state_ok_reach)
  have f: "fires s = (\<lambda>t. isActive s t (currentStep s) \<and> t \<notin> mutedTracks s)"
    by (simp add: fires_def fun_eq_iff)
  have a: "audioContext s = a" using assms by (simp add: init_def)
  have "playStep_tracks tracks s = playSounds (filter (fires s) tracks) s"
    using i by (intro playStep_tracks_playSounds) (simp_all add: state_ok_def)
  then show ?thesis
    using playStep_reach [OF i] ticks_currentStep [OF i] a unfolding f by simp
qed

text \<open>
  Kick and snare set at step 0, snare muted, transport started: the first tick sounds
  the kick only, and seventeen ticks wrap around to step 1.
\<close>

theorem tick_fires_unmuted_active_and_advances_witness:
  "(\<exists>new. playStep (run [ClickStep ''kick'' 0, ClickStep ''snare'' 0, ClickMute ''snare'', TogglePlay] (init True)) =
            (None, run [ClickStep ''kick'' 0, ClickStep ''snare'' 0, ClickMute ''snare'', TogglePlay] (init True)
               \<lparr>voices := voices (run [ClickStep ''kick'' 0, ClickStep ''snare'' 0, ClickMute ''snare'', TogglePlay] (init True)) @ new,
                currentStep := 1\<rparr>) \<and>
            map v_track new = [''kick'']) \<and>
   currentStep (run (replicate 17 Tick)
      (run [ClickStep ''kick'' 0, ClickStep ''snare'' 0, ClickMute ''snare'', TogglePlay] (init True))) = 1"
proof -
  define s where "s = run [ClickStep ''kick'' 0, ClickStep ''snare'' 0, ClickMute ''snare'', TogglePlay] (init True)"
  note defs = init_def toggleStep_def toggleStep_rest_def togglePlay_def play_def setInterval_def
        toggleMute_def playSound_def Let_def tracks_def steps_def stepBtn_exists_def new_row_def
        fill_false_def row_get_def row_set_def truthy_def init_soundConfig_def lookup_def
        lookup_config_def read_prop_def
  have c: "currentStep s = 0"
    unfolding s_def by (simp add: defs)
  have p: "isPlaying s"
    unfolding s_def by (simp add: defs)
  have m: "mutedTracks s = {''snare''}"
    unfolding s_def by (simp add: defs)
  have k: "isActive s ''kick'' 0" "isActive s ''snare'' 0" "\<not> isActive s ''hihat'' 0"
    "\<not> isActive s ''crash'' 0"
    unfolding s_def by (simp_all add: isActive_def defs)
  have f: "filter (\<lambda>t. isActive s t 0 \<and> t \<notin> mutedTracks s) tracks = [''kick'']"
    unfolding m using k by (simp add: tracks_def)
  have "(\<exists>new. playStep s = (None, s\<lparr>voices := voices s @ new, currentStep := 1\<rparr>) \<and>
            map v_track new = [''kick'']) \<and>
        currentStep (run (replicate 17 Tick) s) = 1"
    using tick_fires_unmuted_active_and_advances [OF s_def, of 17] p
    unfolding c f by simp
  then show ?thesis unfolding s_def .
qed

section \<open>What pause and play do to the timers\<close>

lemma pause_reach:
  assumes "state_ok s"
  shows "timers (pause s) = []" and "\<not> isPlaying (pause s)"
    and "currentStep (pause s) = currentStep s"
  using assms
  by (auto simp: state_ok_def timer_ok_def pause_def clearInterval_def Let_def split: option.splits)

lemma play_fields:
  "timers (play s) = timers s @ [(nextTimer s, tick_interval (tempo s))]"
  "isPlaying (play s)" "currentStep (play s) = currentStep s"
  "intervalId (play s) = Some (nextTimer s)"
  by (simp_all add: play_def setInterval_def Let_def)

section \<open>Timers (C3)\<close>

text \<open>
  C3 as stated fails: \<open>play\<close> installs its timer without cancelling the one that is
  live, so two calls in a row leave two live timers.
\<close>

theorem play_twice_leaves_two_timers:
  "\<not> length (timers (play (play (init True)))) \<le> 1"
  by (simp add: play_fields)

text \<open>
  C3, amended. \<open>play\<close> appends a timer and cancels none; what keeps the timers single is
  the \<open>isPlaying\<close> test of \<open>togglePlay\<close>. In every state the event handlers can reach (step
  click, play/pause toggle, stop, clear, tempo input, mute, sound select, tick) at most
  one timer is live: exactly one while playing, the one \<open>intervalId\<close> names, and none
  otherwise. There \<open>updateTempo\<close> while playing cancels that timer and installs one
  replacement, and \<open>pause\<close> and \<open>stop\<close> leave none.
\<close>

theorem single_timer_under_event_handlers:
  assumes "s = run es (init a)"
  shows "length (timers s) \<le> 1 \<and>
         (isPlaying s \<longrightarrow> (\<exists>h d. timers s = [(h, d)] \<and> intervalId s = Some h)) \<and>
         (\<not> isPlaying s \<longrightarrow> timers s = []) \<and>
         (isPlaying s \<longrightarrow> timers (updateTempo n s) = [(nextTimer s, tick_interval n)]) \<and>
         timers (pause s) = [] \<and> timers (stop s) = [] \<and>
         timers (play s) = timers s @ [(nextTimer s, tick_interval (tempo s))]"
proof -
  have i: "state_ok s" using assms by (simp add: state_ok_reach)
  then have t: "timer_ok s" by (simp add: state_ok_def)
  have 1: "length (timers s) \<le> 1"
    using t by (cases "isPlaying s") (auto simp: timer_ok_def)
  have 2: "isPlaying s \<longrightarrow> (\<exists>h d. timers s = [(h, d)] \<and> intervalId s = Some h)"
    using t by (auto simp: timer_ok_def)
  have 3: "\<not> isPlaying s \<longrightarrow> timers s = []"
    using t by (simp add: timer_ok_def)
  have 4: "isPlaying s \<longrightarrow> timers (updateTempo n s) = [(nextTimer s, tick_interval n)]"
    using t by (auto simp: timer_ok_def updateTempo_def clearInterval_def setInterval_def Let_def)
  have 5: "timers (pause s) = []" using i by (rule pause_reach)
  then have 6: "timers (stop s) = []" by (simp add: stop_def)
  from 1 2 3 4 5 6 show ?thesis by (simp add: play_fields)
qed

text \<open>
  Play, change the tempo to 90, pause, play again: one timer, at the new interval.
\<close>

theorem single_timer_under_event_handlers_witness:
  "timers (run [TogglePlay, InputTempo 90, TogglePlay, TogglePlay] (init True)) = [(3, Some (500 / 3))] \<and>
   timers (updateTempo 60 (run [TogglePlay, InputTempo 90, TogglePlay, TogglePlay] (init True))) =
     [(4, Some 250)]"
proof -
  define s where "s = run [TogglePlay, InputTempo 90, TogglePlay, TogglePlay] (init True)"
  note defs = init_def togglePlay_def play_def pause_def updateTempo_def setInterval_def
    clearInterval_def tick_interval_def Let_def
  have p: "isPlaying s" and n: "nextTimer s = 4" and i: "intervalId s = Some 3"
    unfolding s_def by (simp_all add: defs)
  have "timers s = [(3, Some (500 / 3))]"
    unfolding s_def by (simp add: defs)
  moreover have "timers (updateTempo 60 s) = [(4, Some 250)]"
    using single_timer_under_event_handlers [OF s_def, of 60] p n
    by (simp add: tick_interval_def)
  ultimately show ?thesis unfolding s_def by simp
qed

section \<open>Clearing the pattern (C5)\<close>

lemma clear_tracks_eq:
  assumes "distinct ts" and "\<forall>t\<in>set ts. pattern s t \<noteq> None"
  shows "clear_tracks ts s =
           (None, s\<lparr>pattern := (\<lambda>u. if u \<in> set ts then map_option fill_false (pattern s u)
                                     else pattern s u)\<rparr>)"
  using assms
proof (induction ts arbitrary: s)
  case Nil
  then show ?case by simp
next
  case (Cons t ts)
  from Cons.prems obtain r where r: "pattern s t = Some r" by auto
  let ?s1 = "s\<lparr>pattern := (pattern s)(t \<mapsto> fill_false r)\<rparr>"
  have "distinct ts" using Cons.prems by simp
  moreover have "\<forall>u\<in>set ts. pattern ?s1 u \<noteq> None" using Cons.prems by simp
  ultimately have ih: "clear_tracks ts ?s1 =
      (None, ?s1\<lparr>pattern := (\<lambda>u. if u \<in> set ts then map_option fill_false (pattern ?s1 u)
                                     else pattern ?s1 u)\<rparr>)"
    by (rule Cons.IH)
  have "(\<lambda>u. if u \<in> set ts then map_option fill_false (pattern ?s1 u) else pattern ?s1 u) =
        (\<lambda>u. if u \<in> set (t # ts) then map_option fill_false (pattern s u) else pattern s u)"
    using Cons.prems r by (auto simp: fun_eq_iff)
  with ih r show ?case by simp
qed

lemma fill_false_inactive:
  "16 \<le> len r \<Longrightarrow> 0 \<le> i \<Longrightarrow> i < 16 \<Longrightarrow> \<not> truthy (row_get s (fill_false r) i)"
  by (simp add: fill_false_def row_get_def truthy_def)

text \<open>
  C5. In every state the event handlers can reach, \<open>clearAll\<close> throws nothing, leaves
  every cell of every track unset, the step counter at 0 and the transport not playing
  with no live timer; it is the clearing of the rows followed by \<open>stop\<close>.
\<close>

theorem clearAll_clears_and_stops:
  assumes "s = run es (init a)"
  shows "fst (clearAll s) = None \<and>
         (\<forall>t i. 0 \<le> i \<and> i < steps \<longrightarrow> \<not> isActive (snd (clearAll s)) t i) \<and>
         currentStep (snd (clearAll s)) = 0 \<and>
         \<not> isPlaying (snd (clearAll s)) \<and>
         timers (snd (clearAll s)) = [] \<and>
         snd (clearAll s) = stop (snd (clear_tracks tracks s))"
proof -
  have i: "state_ok s" using assms by (simp add: state_ok_reach)
  then have p: "pattern_ok s" by (simp add: state_ok_def)
  let ?p = "\<lambda>u. if u \<in> set tracks then map_option fill_false (pattern s u) else pattern s u"
  have "\<forall>t\<in>set tracks. pattern s t \<noteq> None"
    using p pattern_ok_Some by fastforce
  moreover have "distinct tracks" by (simp add: tracks_def)
  ultimately have c: "clear_tracks tracks s = (None, s\<lparr>pattern := ?p\<rparr>)"
    by (rule clear_tracks_eq [rotated])
  then have e: "clearAll s = (None, stop (s\<lparr>pattern := ?p\<rparr>))"
    by (simp add: clearAll_def and_then_def)
  have "state_ok (snd (clear_tracks tracks s))" using i by (rule state_ok_clear_tracks)
  then have i1: "state_ok (s\<lparr>pattern := ?p\<rparr>)" using c by simp
  have pat: "pattern (stop (s\<lparr>pattern := ?p\<rparr>)) = ?p"
    by (simp add: stop_def pause_def clearInterval_def Let_def split: option.splits)
  have cells: "\<not> isActive (stop (s\<lparr>pattern := ?p\<rparr>)) t j" if "0 \<le> j" "j < steps" for t j
  proof (cases "pattern s t")
    case None
    then show ?thesis by (simp add: isActive_def pat)
  next
    case (Some r)
    then have "t \<in> set tracks" using p pattern_ok_None by fastforce
    moreover have "16 \<le> len r" using p Some by (rule pattern_ok_len)
    ultimately show ?thesis
      using Some that by (simp add: isActive_def pat fill_false_inactive steps_def)
  qed
  have "timers (pause (s\<lparr>pattern := ?p\<rparr>)) = []" "\<not> isPlaying (pause (s\<lparr>pattern := ?p\<rparr>))"
    using i1 by (rule pause_reach)+
  then show ?thesis
    using e c cells by (simp add: stop_def)
qed

text \<open>
  Two cells set and the transport running for three ticks, then \<open>clearAll\<close>.
\<close>

theorem clearAll_clears_and_stops_witness:
  "fst (clearAll (run [ClickStep ''kick'' 0, ClickStep ''hihat'' 5, TogglePlay, Tick, Tick, Tick] (init True))) = None \<and>
   \<not> isActive (snd (clearAll (run [ClickStep ''kick'' 0, ClickStep ''hihat'' 5, TogglePlay, Tick, Tick, Tick] (init True)))) ''hihat'' 5 \<and>
   isActive (run [ClickStep ''kick'' 0, ClickStep ''hihat'' 5, TogglePlay, Tick, Tick, Tick] (init True)) ''hihat'' 5 \<and>
   currentStep (snd (clearAll (run [ClickStep ''kick'' 0, ClickStep ''hihat'' 5, TogglePlay, Tick, Tick, Tick] (init True)))) = 0 \<and>
   \<not> isPlaying (snd (clearAll (run [ClickStep ''kick'' 0, ClickStep ''hihat'' 5, TogglePlay, Tick, Tick, Tick] (init True))))"
proof -
  define s where "s = run [ClickStep ''kick'' 0, ClickStep ''hihat'' 5, TogglePlay, Tick, Tick, Tick] (init True)"
  have i: "state_ok (run [ClickStep ''kick'' 0, ClickStep ''hihat'' 5] (init True))"
    by (rule state_ok_reach)
  have "isActive (run [ClickStep ''kick'' 0, ClickStep ''hihat'' 5] (init True)) ''hihat'' 5"
    by (simp add: isActive_def init_def toggleStep_def toggleStep_rest_def playSound_def Let_def
        tracks_def steps_def stepBtn_exists_def new_row_def fill_false_def row_get_def row_set_def
        truthy_def init_soundConfig_def lookup_def lookup_config_def read_prop_def)
  moreover have "isActive (run (es @ [TogglePlay, Tick, Tick, Tick]) (init True)) t j
      = isActive (run es (init True)) t j" for es t j
  proof -
    have r: "run (xs @ ys) z = run ys (run xs z)" for xs ys z
      by (induction xs arbitrary: z) simp_all
    have tp: "isActive (togglePlay z) t j = isActive z t j" for z
      by (simp add: isActive_def row_get_def togglePlay_def play_def pause_def setInterval_def
          clearInterval_def Let_def split: option.splits)
    have tk: "isActive (handle Tick z) t j = isActive z t j \<and> state_ok (handle Tick z)"
      if z: "state_ok z" for z
    proof -
      obtain new where "playStep z =
          (None, z\<lparr>voices := voices z @ new, currentStep := (currentStep z + 1) mod 16\<rparr>)"
        using playStep_reach [OF z] by blast
      then have "isActive (snd (playStep z)) t j = isActive z t j"
        by (simp add: isActive_def row_get_def split: option.splits)
      then show ?thesis
        using state_ok_handle [OF z, of Tick] by simp
    qed
    let ?z0 = "togglePlay (run es (init True))"
    have z0: "state_ok ?z0" by (simp add: state_ok_reach state_ok_togglePlay)
    note k1 = tk [OF z0]
    note k2 = tk [OF k1 [THEN conjunct2]]
    note k3 = tk [OF k2 [THEN conjunct2]]
    have "run (es @ [TogglePlay, Tick, Tick, Tick]) (init True) =
        handle Tick (handle Tick (handle Tick ?z0))"
      by (simp add: r del: handle.simps(8))
    then show ?thesis
      using k1 k2 k3 tp [of "run es (init True)"] by simp
  qed
  from this [of "[ClickStep ''kick'' 0, ClickStep ''hihat'' 5]"] calculation
  have a: "isActive s ''hihat'' 5" unfolding s_def by simp
  have "fst (clearAll s) = None \<and> \<not> isActive (snd (clearAll s)) ''hihat'' 5 \<and> isActive s ''hihat'' 5 \<and>
    currentStep (snd (clearAll s)) = 0 \<and> \<not> isPlaying (snd (clearAll s))"
  proof -
    note t = clearAll_clears_and_stops [OF s_def]
    have "0 \<le> (5::int) \<and> 5 < steps" by (simp add: steps_def)
    with t [THEN conjunct2, THEN conjunct1] have "\<not> isActive (snd (clearAll s)) ''hihat'' 5"
      by blast
    with t [THEN conjunct1] t [THEN conjunct2, THEN conjunct2, THEN conjunct1]
      t [THEN conjunct2, THEN conjunct2, THEN conjunct2, THEN conjunct1] a
    show ?thesis by blast
  qed
  then show ?thesis unfolding s_def .
qed

section \<open>Pause and stop (C6)\<close>

lemma parts_pause [simp]:
  "pattern_ok (pause s) = pattern_ok s" "config_ok (pause s) = config_ok s"
  "step_ok (pause s) = step_ok s"
  by (simp_all add: pattern_ok_def config_ok_def step_ok_def pause_def clearInterval_def Let_def
      split: option.splits)

lemma parts_play [simp]:
  "pattern_ok (play s) = pattern_ok s" "config_ok (play s) = config_ok s"
  "step_ok (play s) = step_ok s"
  by (simp_all add: pattern_ok_def config_ok_def step_ok_def play_def setInterval_def Let_def)

lemma pause_fields:
  "currentStep (pause s) = currentStep s" "\<not> isPlaying (pause s)"
  by (simp_all add: pause_def clearInterval_def Let_def split: option.splits)

text \<open>
  C6 as stated fails: \<open>pause\<close> cancels only the timer that \<open>intervalId\<close> names. After \<open>play\<close>
  twice in a row the older timer is still live after \<open>pause\<close>, and its next tick moves
  the step counter from 0 to 1: advancement is not halted.
\<close>

theorem pause_after_play_twice_keeps_ticking:
  "timers (pause (play (play (init True)))) = [(1, Some 125)] \<and>
   currentStep (pause (play (play (init True)))) = 0 \<and>
   currentStep (handle Tick (pause (play (play (init True))))) = 1"
proof -
  let ?z = "pause (play (play (init True)))"
  have t: "timers ?z = [(1, Some 125)]"
    by (simp add: pause_def clearInterval_def play_def setInterval_def Let_def init_def
        tick_interval_def)
  have c: "currentStep ?z = 0"
    by (simp add: pause_fields play_fields init_def)
  have "pattern_ok ?z" "config_ok ?z" "step_ok ?z"
    using state_ok_init [of True] by (simp_all add: state_ok_def)
  then obtain new where
    "playStep ?z = (None, ?z\<lparr>voices := voices ?z @ new, currentStep := (currentStep ?z + 1) mod 16\<rparr>)"
    using playStep_parts [of ?z] by blast
  then have "currentStep (snd (playStep ?z)) = 1"
    using c by simp
  then have "currentStep (handle Tick ?z) = 1"
    using t by simp
  with t c show ?thesis by blast
qed

text \<open>
  C6, amended. \<open>stop\<close> is \<open>pause\<close> followed by setting the step counter to 0. In every
  state \<open>pause\<close> keeps the step counter and ends playing, so \<open>play\<close> after \<open>pause\<close> is playing
  at the step where it paused and \<open>play\<close> after \<open>stop\<close> is playing at step 0. \<open>pause\<close>
  cancels only the timer that \<open>intervalId\<close> names: in the states the event handlers can
  reach that leaves no live timer, so there no tick advances the counter after \<open>pause\<close>,
  and the first tick after resuming moves on from the step kept (from step 0 after
  \<open>stop\<close>).
\<close>

theorem stop_is_pause_then_rewind:
  "stop s = (pause s)\<lparr>currentStep := 0\<rparr> \<and>
   currentStep (pause s) = currentStep s \<and>
   \<not> isPlaying (pause s) \<and>
   isPlaying (play (pause s)) \<and>
   currentStep (play (pause s)) = currentStep s \<and>
   isPlaying (play (stop s)) \<and>
   currentStep (play (stop s)) = 0 \<and>
   (s = run es (init a) \<longrightarrow>
      timers (pause s) = [] \<and>
      handle Tick (pause s) = pause s \<and>
      currentStep (handle Tick (play (pause s))) = (currentStep s + 1) mod 16 \<and>
      currentStep (handle Tick (play (stop s))) = 1)"
proof -
  have u: "stop s = (pause s)\<lparr>currentStep := 0\<rparr> \<and>
   currentStep (pause s) = currentStep s \<and>
   \<not> isPlaying (pause s) \<and>
   isPlaying (play (pause s)) \<and>
   currentStep (play (pause s)) = currentStep s \<and>
   isPlaying (play (stop s)) \<and>
   currentStep (play (stop s)) = 0"
    by (simp add: stop_def play_fields pause_fields)
  have r: "timers (pause s) = [] \<and>
      handle Tick (pause s) = pause s \<and>
      currentStep (handle Tick (play (pause s))) = (currentStep s + 1) mod 16 \<and>
      currentStep (handle Tick (play (stop s))) = 1"
    if s: "s = run es (init a)"
  proof -
    have i: "state_ok s" using s by (simp add: state_ok_reach)
    note p = pause_reach [OF i]
    have ip: "state_ok (togglePlay (pause s))" "state_ok (togglePlay (stop s))"
      using i by (simp_all add: state_ok_pause state_ok_stop state_ok_togglePlay)
    have tp: "togglePlay (pause s) = play (pause s)" "togglePlay (stop s) = play (stop s)"
      using p by (simp_all add: togglePlay_def stop_def)
    have 1: "currentStep (snd (playStep (play (pause s)))) = (currentStep s + 1) mod 16"
      using playStep_state(4) [OF ip(1)] p by (simp add: tp play_fields)
    have "currentStep (togglePlay (stop s)) = 0"
      by (simp add: tp play_fields) (simp add: stop_def)
    with playStep_state(4) [OF ip(2)]
    have 2: "currentStep (snd (playStep (play (stop s)))) = 1"
      by (simp add: tp)
    show ?thesis
      using p 1 2 by (simp add: play_fields)
  qed
  from u r show ?thesis by blast
qed

text \<open>
  Three ticks into the loop: pausing and resuming stays at step 3, stopping and
  restarting goes back to step 0.
\<close>

theorem stop_is_pause_then_rewind_witness:
  "currentStep (run [TogglePlay, Tick, Tick, Tick] (init True)) = 3 \<and>
   currentStep (play (pause (run [TogglePlay, Tick, Tick, Tick] (init True)))) = 3 \<and>
   currentStep (handle Tick (play (pause (run [TogglePlay, Tick, Tick, Tick] (init True))))) = 4 \<and>
   currentStep (play (stop (run [TogglePlay, Tick, Tick, Tick] (init True)))) = 0 \<and>
   timers (pause (run [TogglePlay, Tick, Tick, Tick] (init True))) = []"
proof -
  define s where "s = run [TogglePlay, Tick, Tick, Tick] (init True)"
  have "s = run (replicate 3 Tick) (togglePlay (init True))"
    unfolding s_def by (simp add: numeral_3_eq_3)
  moreover have "state_ok (togglePlay (init True))"
    by (simp add: state_ok_init state_ok_togglePlay)
  moreover have "isPlaying (togglePlay (init True))" "currentStep (togglePlay (init True)) = 0"
    by (simp_all add: togglePlay_def init_def play_fields)
  ultimately have c: "currentStep s = 3"
    using ticks_currentStep [of "togglePlay (init True)" 3] by simp
  note t = stop_is_pause_then_rewind [of s "[TogglePlay, Tick, Tick, Tick]" True]
  have "currentStep (play (pause s)) = 3"
    using t c by simp
  moreover have "currentStep (play (stop s)) = 0"
    using t by blast
  moreover have "currentStep (handle Tick (play (pause s))) = 4" "timers (pause s) = []"
    using t c s_def by simp_all
  ultimately show ?thesis using c unfolding s_def by blast
qed

section \<open>Sound variants (C7, C10)\<close>

lemma lookup_variations_not_Own:
  "variations v = None \<Longrightarrow> lookup variations op v \<noteq> Own x"
  by (simp add: lookup_Own_iff)

lemma props_not_Own:
  assumes "\<And>x. l \<noteq> Own x"
  shows "frequency (props s l) = None" "wtype (props s l) = None" "decay (props s l) = None"
  using assms by (cases l; simp add: props_def no_props_def split: prim.splits)+

lemma spread_no_props:
  assumes "frequency b = None" "wtype b = None" "decay b = None"
  shows "frequency (spread a b) = frequency a" "wtype (spread a b) = wtype a"
    "decay (spread a b) = decay a"
  using assms by (simp_all add: spread_def)

lemma spread_var_props:
  "spread c (var_props var) = c\<lparr>frequency := Some (var_frequency var), wtype := Some (var_type var)\<rparr>"
  by (cases c) (simp add: spread_def var_props_def)

text \<open>
  C7. For a key that has a configuration, as every track has: when the sound id is not
  an entry of the variation table, \<open>changeSound\<close> leaves the frequency, waveform and
  decay of the configuration as they are and changes nothing else in the state; when
  it is, the configuration gets the variation's frequency and waveform and keeps its
  decay and whatever else it holds, and nothing else in the state changes. So \<open>kick2\<close>
  on the kick gives frequency 40 and a triangle wave with the decay the kick had.
\<close>

theorem changeSound_merges_variant:
  "(variations v = None \<and> soundConfig s t = Some c \<longrightarrow>
      (\<exists>c'. changeSound t v s = s\<lparr>soundConfig := (soundConfig s)(t \<mapsto> c')\<rparr> \<and>
            frequency c' = frequency c \<and> wtype c' = wtype c \<and> decay c' = decay c)) \<and>
   (variations v = Some var \<and> soundConfig s t = Some c \<longrightarrow>
      changeSound t v s =
        s\<lparr>soundConfig := (soundConfig s)
             (t \<mapsto> c\<lparr>frequency := Some (var_frequency var), wtype := Some (var_type var)\<rparr>)\<rparr>) \<and>
   (soundConfig s ''kick'' = Some c \<longrightarrow>
      soundConfig (changeSound ''kick'' ''kick2'' s) ''kick'' =
        Some (c\<lparr>frequency := Some 40, wtype := Some triangle\<rparr>))"
proof -
  have 1: "\<exists>c'. changeSound t v s = s\<lparr>soundConfig := (soundConfig s)(t \<mapsto> c')\<rparr> \<and>
            frequency c' = frequency c \<and> wtype c' = wtype c \<and> decay c' = decay c"
    if n: "variations v = None" and c: "soundConfig s t = Some c"
  proof (cases "truthy_looked (lookup variations (objectProto s) v)")
    case False
    have "(soundConfig s)(t \<mapsto> c) = soundConfig s"
      using c by (simp add: fun_upd_idem)
    then have "changeSound t v s = s\<lparr>soundConfig := (soundConfig s)(t \<mapsto> c)\<rparr>"
      using False by (simp add: changeSound_def Let_def)
    then show ?thesis by blast
  next
    case True
    let ?l = "map_looked var_props (lookup variations (objectProto s) v)"
    have nl: "lookup variations (objectProto s) v \<noteq> Own y" for y
      using n by (rule lookup_variations_not_Own)
    have "?l \<noteq> Own x" for x
      using nl by (cases "lookup variations (objectProto s) v") auto
    then have p: "frequency (props s ?l) = None" "wtype (props s ?l) = None"
      "decay (props s ?l) = None"
      by (rule props_not_Own)+
    have "changeSound t v s = s\<lparr>soundConfig := (soundConfig s)(t \<mapsto> spread c (props s ?l))\<rparr>"
      using True c by (simp add: changeSound_def Let_def lookup_config_Own)
    with spread_no_props [OF p, of c] show ?thesis by blast
  qed
  have 2: "changeSound t v s =
        s\<lparr>soundConfig := (soundConfig s)
             (t \<mapsto> c\<lparr>frequency := Some (var_frequency var), wtype := Some (var_type var)\<rparr>)\<rparr>"
    if "variations v = Some var" and "soundConfig s t = Some c" for t v var
    using that
    by (simp add: changeSound_def Let_def lookup_Own lookup_config_Own truthy_looked_def
        spread_var_props)
  have k: "variations ''kick2'' = Some \<lparr>var_frequency = 40, var_type = triangle\<rparr>"
    by (simp add: variations_def)
  have 3: "soundConfig (changeSound ''kick'' ''kick2'' s) ''kick'' =
        Some (c\<lparr>frequency := Some 40, wtype := Some triangle\<rparr>)"
    if "soundConfig s ''kick'' = Some c"
    using 2 [OF k that] by simp
  from 1 2 3 show ?thesis by blast
qed

text \<open>
  On the freshly built machine: an id the table does not have, an id it only inherits
  (\<open>toString\<close>), and \<open>kick2\<close>, each on the kick, which keeps its decay of 0.5 each time.
\<close>

theorem changeSound_merges_variant_witness:
  "(\<exists>c'. soundConfig (changeSound ''kick'' ''kick9'' (init True)) ''kick'' = Some c' \<and>
      frequency c' = Some 60 \<and> wtype c' = Some sine \<and> decay c' = Some 0.5) \<and>
   (\<exists>c'. soundConfig (changeSound ''kick'' ''toString'' (init True)) ''kick'' = Some c' \<and>
      frequency c' = Some 60 \<and> wtype c' = Some sine \<and> decay c' = Some 0.5) \<and>
   (\<exists>c'. soundConfig (changeSound ''kick'' ''kick2'' (init True)) ''kick'' = Some c' \<and>
      frequency c' = Some 40 \<and> wtype c' = Some triangle \<and> decay c' = Some 0.5)"
proof -
  have n: "variations ''kick9'' = None" "variations ''toString'' = None"
    by (simp_all add: variations_def)
  have c: "soundConfig (init True) ''kick'' =
      Some \<lparr>frequency = Some 60, wtype = Some sine, decay = Some 0.5, extra = Map.empty\<rparr>"
    by (simp add: init_def init_soundConfig_def)
  note a = changeSound_merges_variant [of "''kick9''" "init True" "''kick''" _ _, THEN conjunct1]
  note b = changeSound_merges_variant [of "''toString''" "init True" "''kick''" _ _, THEN conjunct1]
  note d = changeSound_merges_variant [of _ "init True" _ _ _, THEN conjunct2, THEN conjunct2]
  from a n(1) c obtain c1 where
    "changeSound ''kick'' ''kick9'' (init True) =
       (init True)\<lparr>soundConfig := (soundConfig (init True))(''kick'' \<mapsto> c1)\<rparr>"
    "frequency c1 = Some 60" "wtype c1 = Some sine" "decay c1 = Some 0.5"
    by fastforce
  then have 1: "\<exists>c'. soundConfig (changeSound ''kick'' ''kick9'' (init True)) ''kick'' = Some c' \<and>
      frequency c' = Some 60 \<and> wtype c' = Some sine \<and> decay c' = Some 0.5"
    by simp
  from b n(2) c obtain c2 where
    "changeSound ''kick'' ''toString'' (init True) =
       (init True)\<lparr>soundConfig := (soundConfig (init True))(''kick'' \<mapsto> c2)\<rparr>"
    "frequency c2 = Some 60" "wtype c2 = Some sine" "decay c2 = Some 0.5"
    by fastforce
  then have 2: "\<exists>c'. soundConfig (changeSound ''kick'' ''toString'' (init True)) ''kick'' = Some c' \<and>
      frequency c' = Some 60 \<and> wtype c' = Some sine \<and> decay c' = Some 0.5"
    by simp
  from d c have 3: "\<exists>c'. soundConfig (changeSound ''kick'' ''kick2'' (init True)) ''kick'' = Some c' \<and>
      frequency c' = Some 40 \<and> wtype c' = Some triangle \<and> decay c' = Some 0.5"
    by simp
  from 1 2 3 show ?thesis by blast
qed

text \<open>
  C10. The variation table is looked up by the sound id alone: whatever the track, an
  id found in the table puts its frequency and waveform on that track. So \<open>snare2\<close>
  applied to the kick gives the kick 300 Hz and a sawtooth wave.
\<close>

theorem changeSound_ignores_track_of_variant:
  "(\<forall>var. variations v = Some var \<longrightarrow>
      (\<exists>c'. soundConfig (changeSound t v s) t = Some c' \<and>
            frequency c' = Some (var_frequency var) \<and> wtype c' = Some (var_type var))) \<and>
   (\<exists>c'. soundConfig (changeSound ''kick'' ''snare2'' s) ''kick'' = Some c' \<and>
         frequency c' = Some 300 \<and> wtype c' = Some sawtooth)"
proof -
  have g: "\<exists>c'. soundConfig (changeSound t v s) t = Some c' \<and>
            frequency c' = Some (var_frequency var) \<and> wtype c' = Some (var_type var)"
    if "variations v = Some var" for t v var
    using that
    by (simp add: changeSound_def Let_def lookup_Own truthy_looked_def spread_def var_props_def)
  have k: "variations ''snare2'' = Some \<lparr>var_frequency = 300, var_type = sawtooth\<rparr>"
    by (simp add: variations_def)
  from g [OF k, of "''kick''"] g [of v _ t] show ?thesis by simp
qed

text \<open>The hi-hat's third variant on the crash track of the freshly built machine.\<close>

theorem changeSound_ignores_track_of_variant_witness:
  "\<exists>c'. soundConfig (changeSound ''crash'' ''hihat3'' (init True)) ''crash'' = Some c' \<and>
        frequency c' = Some 6000 \<and> wtype c' = Some triangle"
proof -
  have k: "variations ''hihat3'' = Some \<lparr>var_frequency = 6000, var_type = triangle\<rparr>"
    by (simp add: variations_def)
  from changeSound_ignores_track_of_variant [of "''hihat3''" "''crash''" "init True", THEN conjunct1] k
  show ?thesis by simp
qed

section \<open>Tempo (C2)\<close>

text \<open>
  C2 as stated fails: \<open>updateTempo\<close> has no guard. A tempo of 0 is stored like any
  other, and while playing the timer is replaced by one at the new (infinite)
  interval.
\<close>

theorem updateTempo_zero_is_stored:
  "tempo (updateTempo 0 (init True)) = 0 \<and>
   tempo (updateTempo 0 (init True)) \<noteq> tempo (init True) \<and>
   timers (updateTempo 0 (play (init True))) \<noteq> timers (play (init True))"
  by (simp add: updateTempo_def init_def play_def setInterval_def clearInterval_def Let_def
      tick_interval_def)

text \<open>
  C2, amended. \<open>updateTempo\<close> rejects nothing: for every integer \<open>bpm\<close>, positive or
  not, it sets the tempo to \<open>bpm\<close>. While not playing nothing else changes; while
  playing, in a state the event handlers can reach, the live timer is cancelled and
  one timer at the interval of the new tempo takes its place.
\<close>

theorem updateTempo_stores_any_tempo:
  assumes "s = run es (init a)"
  shows "tempo (updateTempo bpm s) = bpm \<and>
         (\<not> isPlaying s \<longrightarrow> updateTempo bpm s = s\<lparr>tempo := bpm\<rparr>) \<and>
         (isPlaying s \<longrightarrow>
            updateTempo bpm s =
              s\<lparr>tempo := bpm, timers := [(nextTimer s, tick_interval bpm)],
                nextTimer := Suc (nextTimer s), intervalId := Some (nextTimer s)\<rparr>)"
proof -
  have "timer_ok s" using assms state_ok_reach [of es a] by (simp add: state_ok_def)
  then show ?thesis
    by (auto simp: timer_ok_def updateTempo_def clearInterval_def setInterval_def Let_def)
qed

text \<open>A negative tempo while stopped, and a tempo of 90 while playing.\<close>

theorem updateTempo_stores_any_tempo_witness:
  "updateTempo (- 5) (run [] (init True)) = (run [] (init True))\<lparr>tempo := - 5\<rparr> \<and>
   timers (updateTempo 90 (run [TogglePlay] (init True))) = [(2, Some (500 / 3))]"
proof -
  have "\<not> isPlaying (run [] (init True))" by (simp add: init_def)
  with updateTempo_stores_any_tempo [of "run [] (init True)" "[]" True "- 5", OF refl]
  have 1: "updateTempo (- 5) (run [] (init True)) = (run [] (init True))\<lparr>tempo := - 5\<rparr>"
    by blast
  define s where "s = run [TogglePlay] (init True)"
  have p: "isPlaying s" and n: "nextTimer s = 2"
    unfolding s_def by (simp_all add: togglePlay_def init_def play_def setInterval_def Let_def)
  from updateTempo_stores_any_tempo [OF s_def, of 90] p
  have "updateTempo 90 s =
              s\<lparr>tempo := 90, timers := [(nextTimer s, tick_interval 90)],
                nextTimer := Suc (nextTimer s), intervalId := Some (nextTimer s)\<rparr>"
    by blast
  then have "timers (updateTempo 90 s) = [(2, Some (500 / 3))]"
    using n by (simp add: tick_interval_def)
  with 1 show ?thesis unfolding s_def by blast
qed

section \<open>What toggleStep does in range\<close>

lemma row_set_in_range:
  "16 \<le> len r \<Longrightarrow> 0 \<le> i \<Longrightarrow> i < 16 \<Longrightarrow> row_set r i v = r\<lparr>cells := (cells r)(i \<mapsto> v)\<rparr>"
  by (cases r) (simp add: row_set_def max_def, linarith)

lemma toggleStep_in_range:
  assumes "pattern_ok s" and "t \<in> set tracks" and "0 \<le> i" and "i < 16"
  shows "\<exists>r b. pattern s t = Some r \<and> cells r i = Some b \<and>
           toggleStep t i s =
             (if b then (None, s\<lparr>pattern := (pattern s)(t \<mapsto> r\<lparr>cells := (cells r)(i \<mapsto> False)\<rparr>)\<rparr>)
              else playSound t (s\<lparr>pattern := (pattern s)(t \<mapsto> r\<lparr>cells := (cells r)(i \<mapsto> True)\<rparr>)\<rparr>))"
proof -
  obtain r where r: "pattern s t = Some r"
    using assms pattern_ok_Some by blast
  obtain b where b: "cells r i = Some b"
    using assms r pattern_ok_cell by blast
  have l: "16 \<le> len r" using assms(1) r by (rule pattern_ok_len)
  have e: "stepBtn_exists t i" using assms by (simp add: stepBtn_exists_def steps_def)
  have "toggleStep t i s =
             (if b then (None, s\<lparr>pattern := (pattern s)(t \<mapsto> r\<lparr>cells := (cells r)(i \<mapsto> False)\<rparr>)\<rparr>)
              else playSound t (s\<lparr>pattern := (pattern s)(t \<mapsto> r\<lparr>cells := (cells r)(i \<mapsto> True)\<rparr>)\<rparr>))"
    using r b e assms(3,4)
    by (simp add: toggleStep_def toggleStep_rest_def Let_def lookup_Own read_prop_def row_get_def
        truthy_def row_set_in_range [OF l])
  with r b show ?thesis by blast
qed

lemma isActive_cell:
  "pattern s t = Some r \<Longrightarrow> cells r i = Some b \<Longrightarrow> isActive s t i = b"
  by (simp add: isActive_def row_get_def truthy_def)

lemma pattern_playSound [simp]: "pattern (snd (playSound t s)) = pattern s"
  using playSound_frame [of t s] by auto

section \<open>Toggling a step twice (C9)\<close>

text \<open>
  C9. In every state the event handlers can reach, for a known track and a step in
  \<open>[0, 16)\<close>, two calls of \<open>toggleStep\<close> in a row throw nothing and give back the cell its
  value and the whole pattern its contents.
\<close>

theorem toggleStep_twice_restores_pattern:
  assumes "s = run es (init a)" and "t \<in> set tracks" and "0 \<le> i" and "i < steps"
  shows "fst (toggleStep t i s) = None \<and>
         fst (toggleStep t i (snd (toggleStep t i s))) = None \<and>
         isActive (snd (toggleStep t i s)) t i = (\<not> isActive s t i) \<and>
         isActive (snd (toggleStep t i (snd (toggleStep t i s)))) t i = isActive s t i \<and>
         pattern (snd (toggleStep t i (snd (toggleStep t i s)))) = pattern s"
proof -
  have i: "state_ok s" using assms(1) by (simp add: state_ok_reach)
  then have p: "pattern_ok s" and c: "config_ok s" by (simp_all add: state_ok_def)
  have i16: "i < 16" using assms(4) by (simp add: steps_def)
  let ?s1 = "snd (toggleStep t i s)"
  have i1: "state_ok ?s1" using i by (rule state_ok_toggleStep)
  then have p1: "pattern_ok ?s1" and c1: "config_ok ?s1" by (simp_all add: state_ok_def)
  from toggleStep_in_range [OF p assms(2,3) i16] obtain r b where
    r: "pattern s t = Some r" "cells r i = Some b" and
    t1: "toggleStep t i s =
             (if b then (None, s\<lparr>pattern := (pattern s)(t \<mapsto> r\<lparr>cells := (cells r)(i \<mapsto> False)\<rparr>)\<rparr>)
              else playSound t (s\<lparr>pattern := (pattern s)(t \<mapsto> r\<lparr>cells := (cells r)(i \<mapsto> True)\<rparr>)\<rparr>))"
    by blast
  have pat1: "pattern ?s1 = (pattern s)(t \<mapsto> r\<lparr>cells := (cells r)(i \<mapsto> \<not> b)\<rparr>)"
    using t1 by (cases b) simp_all
  have f1: "fst (toggleStep t i s) = None"
  proof (cases b)
    case True
    with t1 show ?thesis by simp
  next
    case False
    have "config_ok (s\<lparr>pattern := (pattern s)(t \<mapsto> r\<lparr>cells := (cells r)(i \<mapsto> True)\<rparr>)\<rparr>)"
      using c by (simp add: config_ok_def)
    with False t1 assms(2) show ?thesis by (simp add: playSound_ok)
  qed
  from toggleStep_in_range [OF p1 assms(2,3) i16] obtain r' b' where
    r': "pattern ?s1 t = Some r'" "cells r' i = Some b'" and
    t2: "toggleStep t i ?s1 =
             (if b' then (None, ?s1\<lparr>pattern := (pattern ?s1)(t \<mapsto> r'\<lparr>cells := (cells r')(i \<mapsto> False)\<rparr>)\<rparr>)
              else playSound t (?s1\<lparr>pattern := (pattern ?s1)(t \<mapsto> r'\<lparr>cells := (cells r')(i \<mapsto> True)\<rparr>)\<rparr>))"
    by blast
  have r'_eq: "r' = r\<lparr>cells := (cells r)(i \<mapsto> \<not> b)\<rparr>"
    using r'(1) pat1 by simp
  then have b': "b' = (\<not> b)" using r'(2) by simp
  have undo: "r'\<lparr>cells := (cells r')(i \<mapsto> b)\<rparr> = r"
    using r(2) by (cases r) (auto simp: r'_eq fun_eq_iff)
  have pat2: "pattern (snd (toggleStep t i ?s1)) = (pattern ?s1)(t \<mapsto> r'\<lparr>cells := (cells r')(i \<mapsto> b)\<rparr>)"
    using t2 b' by (cases b) simp_all
  have f2: "fst (toggleStep t i ?s1) = None"
  proof (cases b')
    case True
    with t2 show ?thesis by simp
  next
    case False
    have "config_ok (?s1\<lparr>pattern := (pattern ?s1)(t \<mapsto> r'\<lparr>cells := (cells r')(i \<mapsto> True)\<rparr>)\<rparr>)"
      using c1 by (simp add: config_ok_def)
    with False t2 assms(2) show ?thesis by (simp add: playSound_ok)
  qed
  have e: "pattern (snd (toggleStep t i ?s1)) = pattern s"
    unfolding pat2 undo pat1 using r(1) by (auto simp: fun_eq_iff)
  have a0: "isActive s t i = b" using r by (rule isActive_cell)
  have a1: "isActive ?s1 t i = (\<not> b)"
    using r' b' by (simp add: isActive_cell)
  have a2: "isActive (snd (toggleStep t i ?s1)) t i = b"
    using r e by (intro isActive_cell) simp_all
  from f1 f2 a0 a1 a2 e show ?thesis by simp
qed

text \<open>The crash at step 15, after some clicking and a run of the transport.\<close>

theorem toggleStep_twice_restores_pattern_witness:
  "pattern (snd (toggleStep ''crash'' 15 (snd (toggleStep ''crash'' 15
       (run [ClickStep ''crash'' 15, TogglePlay, Tick] (init True)))))) =
   pattern (run [ClickStep ''crash'' 15, TogglePlay, Tick] (init True)) \<and>
   isActive (snd (toggleStep ''crash'' 15 (snd (toggleStep ''crash'' 15
       (run [ClickStep ''crash'' 15, TogglePlay, Tick] (init True)))))) ''crash'' 15 =
   isActive (run [ClickStep ''crash'' 15, TogglePlay, Tick] (init True)) ''crash'' 15"
proof -
  have "''crash'' \<in> set tracks" "(0::int) \<le> 15" "15 < steps"
    by (simp_all add: tracks_def steps_def)
  from toggleStep_twice_restores_pattern [OF refl this]
  show ?thesis by blast
qed

section \<open>Toggling a step (C1)\<close>

lemma toggleStep_out_of_range:
  assumes "pattern s t = Some r" and "\<not> (0 \<le> i \<and> i < steps)"
  shows "toggleStep t i s =
           (Some TypeError,
            s\<lparr>pattern := (pattern s)(t \<mapsto> row_set r i (\<not> truthy (row_get s r i)))\<rparr>)"
  using assms
  by (auto simp: toggleStep_def toggleStep_rest_def Let_def lookup_Own read_prop_def
      stepBtn_exists_def)

lemma toggleStep_no_row:
  assumes "pattern s t = None" and "t \<notin> set tracks"
  shows "toggleStep t i s =
     (Some TypeError,
      if t = ''__proto__''
      then s\<lparr>objectProto := (objectProto s)(key_of i \<mapsto> \<not> truthy (objectProto s (key_of i)))\<rparr>
      else if t \<in> set function_names
      then s\<lparr>builtinProps := (builtinProps s)
             (t := (builtinProps s t)
                (key_of i \<mapsto>
                   \<not> truthy (case builtinProps s t (key_of i) of
                               Some b \<Rightarrow> Some b
                             | None \<Rightarrow> objectProto s (key_of i))))\<rparr>
      else s)"
proof -
  have "\<not> stepBtn_exists t i"
    using assms(2) by (simp add: stepBtn_exists_def)
  then show ?thesis
    using assms(1)
    by (auto simp: toggleStep_def toggleStep_rest_def Let_def lookup_def read_prop_def
        split: option.splits)
qed

text \<open>
  C1 as stated fails: \<open>toggleStep\<close> checks nothing. With step 16 the cell is written
  beyond the loop, and only then the missing step button makes the method throw (a
  TypeError): the pattern is not what it was.
\<close>

theorem toggleStep_step_16_changes_pattern:
  "fst (toggleStep ''kick'' 16 (init True)) = Some TypeError \<and>
   \<not> isActive (init True) ''kick'' 16 \<and>
   isActive (snd (toggleStep ''kick'' 16 (init True))) ''kick'' 16 \<and>
   snd (toggleStep ''kick'' 16 (init True)) \<noteq> init True"
proof -
  have r: "pattern (init True) ''kick'' = Some (new_row steps)"
    by (simp add: init_def tracks_def)
  have o: "objectProto (init True) = Map.empty"
    by (simp add: init_def)
  have n: "\<not> isActive (init True) ''kick'' 16"
    by (simp add: isActive_def r o new_row_def fill_false_def row_get_def truthy_def steps_def)
  have t: "toggleStep ''kick'' 16 (init True) =
      (Some TypeError, (init True)\<lparr>pattern := (pattern (init True))
         (''kick'' \<mapsto> row_set (new_row steps) 16
            (\<not> truthy (row_get (init True) (new_row steps) 16)))\<rparr>)"
    by (rule toggleStep_out_of_range [OF r]) (simp add: steps_def)
  have y: "isActive (snd (toggleStep ''kick'' 16 (init True))) ''kick'' 16"
    unfolding t
    by (simp add: isActive_def o new_row_def fill_false_def row_get_def row_set_def truthy_def
        steps_def)
  from n y have "snd (toggleStep ''kick'' 16 (init True)) \<noteq> init True"
    by auto
  with n y t show ?thesis by simp
qed

text \<open>
  C1, amended. \<open>toggleStep\<close> has no argument check and no InvalidArgument error, and it
  returns no value. In every state the event handlers can reach: for a known track and
  a step in \<open>[0, 16)\<close> it throws nothing, flips the cell at (track, step), and leaves
  every other cell and everything but the pattern and the started voices unchanged;
  for a known track and a step outside \<open>[0, 16)\<close> it writes the flipped value at that
  index and then throws a TypeError; for a name that is not a track it throws a
  TypeError and leaves the pattern, the transport and all other fields of the machine
  unchanged, but where the name is a property that the pattern object inherits from
  \<open>Object.prototype\<close> (\<open>__proto__\<close>, \<open>constructor\<close>, \<open>toString\<close> and the like) the flipped
  value has first been written on that inherited object.
\<close>

theorem toggleStep_unchecked:
  assumes "s = run es (init a)"
  shows "(t \<notin> set tracks \<longrightarrow>
            toggleStep t i s =
              (Some TypeError,
               if t = ''__proto__''
               then s\<lparr>objectProto :=
                        (objectProto s)(key_of i \<mapsto> \<not> truthy (objectProto s (key_of i)))\<rparr>
               else if t \<in> set function_names
               then s\<lparr>builtinProps := (builtinProps s)
                      (t := (builtinProps s t)
                         (key_of i \<mapsto>
                            \<not> truthy (case builtinProps s t (key_of i) of
                                        Some b \<Rightarrow> Some b
                                      | None \<Rightarrow> objectProto s (key_of i))))\<rparr>
               else s)) \<and>
         (t \<in> set tracks \<and> 0 \<le> i \<and> i < steps \<longrightarrow>
            fst (toggleStep t i s) = None \<and>
            isActive (snd (toggleStep t i s)) t i = (\<not> isActive s t i) \<and>
            (\<forall>u j. (u, j) \<noteq> (t, i) \<longrightarrow> isActive (snd (toggleStep t i s)) u j = isActive s u j) \<and>
            snd (toggleStep t i s) =
              s\<lparr>pattern := pattern (snd (toggleStep t i s)),
                voices := voices (snd (toggleStep t i s))\<rparr>) \<and>
         (t \<in> set tracks \<and> \<not> (0 \<le> i \<and> i < steps) \<longrightarrow>
            fst (toggleStep t i s) = Some TypeError \<and>
            isActive (snd (toggleStep t i s)) t i = (\<not> isActive s t i))"
proof -
  have i: "state_ok s" using assms(1) by (simp add: state_ok_reach)
  then have p: "pattern_ok s" and c: "config_ok s" by (simp_all add: state_ok_def)
  have 1: "toggleStep t i s =
              (Some TypeError,
               if t = ''__proto__''
               then s\<lparr>objectProto :=
                        (objectProto s)(key_of i \<mapsto> \<not> truthy (objectProto s (key_of i)))\<rparr>
               else if t \<in> set function_names
               then s\<lparr>builtinProps := (builtinProps s)
                      (t := (builtinProps s t)
                         (key_of i \<mapsto>
                            \<not> truthy (case builtinProps s t (key_of i) of
                                        Some b \<Rightarrow> Some b
                                      | None \<Rightarrow> objectProto s (key_of i))))\<rparr>
               else s)"
    if n: "t \<notin> set tracks"
    using pattern_ok_None [OF p n] n by (rule toggleStep_no_row)
  have 3: "fst (toggleStep t i s) = Some TypeError \<and>
           isActive (snd (toggleStep t i s)) t i = (\<not> isActive s t i)"
    if o: "t \<in> set tracks" "\<not> (0 \<le> i \<and> i < steps)"
  proof -
    obtain r where r: "pattern s t = Some r"
      using p o(1) pattern_ok_Some by blast
    show ?thesis
      unfolding toggleStep_out_of_range [OF r o(2)]
      by (simp add: isActive_def r row_get_def row_set_def truthy_def split: option.splits)
  qed
  have 2: "fst (toggleStep t i s) = None \<and>
            isActive (snd (toggleStep t i s)) t i = (\<not> isActive s t i) \<and>
            (\<forall>u j. (u, j) \<noteq> (t, i) \<longrightarrow> isActive (snd (toggleStep t i s)) u j = isActive s u j) \<and>
            snd (toggleStep t i s) =
              s\<lparr>pattern := pattern (snd (toggleStep t i s)),
                voices := voices (snd (toggleStep t i s))\<rparr>"
    if k: "t \<in> set tracks" "0 \<le> i" "i < steps"
  proof -
    have i16: "i < 16" using k(3) by (simp add: steps_def)
    from toggleStep_in_range [OF p k(1,2) i16] obtain r b where
      r: "pattern s t = Some r" "cells r i = Some b" and
      t1: "toggleStep t i s =
             (if b then (None, s\<lparr>pattern := (pattern s)(t \<mapsto> r\<lparr>cells := (cells r)(i \<mapsto> False)\<rparr>)\<rparr>)
              else playSound t (s\<lparr>pattern := (pattern s)(t \<mapsto> r\<lparr>cells := (cells r)(i \<mapsto> True)\<rparr>)\<rparr>))"
      by blast
    let ?s1 = "s\<lparr>pattern := (pattern s)(t \<mapsto> r\<lparr>cells := (cells r)(i \<mapsto> \<not> b)\<rparr>)\<rparr>"
    have "config_ok ?s1" using c by (simp add: config_ok_def)
    then have ok: "fst (playSound t ?s1) = None" using k(1) by (rule playSound_ok)
    obtain vs where vs: "snd (playSound t ?s1) = ?s1\<lparr>voices := vs\<rparr>"
      using playSound_frame by blast
    have "\<exists>vs. toggleStep t i s = (None, ?s1\<lparr>voices := vs\<rparr>)"
    proof (cases b)
      case True
      with t1 have "toggleStep t i s = (None, ?s1\<lparr>voices := voices s\<rparr>)" by simp
      then show ?thesis by blast
    next
      case False
      with t1 ok vs have "toggleStep t i s = (None, ?s1\<lparr>voices := vs\<rparr>)"
        by (cases "playSound t ?s1") simp
      then show ?thesis by blast
    qed
    then obtain ws where e: "toggleStep t i s = (None, ?s1\<lparr>voices := ws\<rparr>)" by blast
    have a0: "isActive s t i = b" using r by (rule isActive_cell)
    have a1: "isActive (?s1\<lparr>voices := ws\<rparr>) t i = (\<not> b)"
      by (simp add: isActive_def row_get_def truthy_def)
    have a2: "isActive (?s1\<lparr>voices := ws\<rparr>) u j = isActive s u j" if "(u, j) \<noteq> (t, i)" for u j
      using that r by (auto simp: isActive_def row_get_def split: option.splits)
    show ?thesis
      unfolding e using a0 a1 a2 by simp
  qed
  from 1 2 3 show ?thesis by blast
qed

text \<open>
  On the freshly built machine: a cowbell that does not exist, the inherited
  \<open>constructor\<close>, the kick at step 3, and the kick at step 16.
\<close>

theorem toggleStep_unchecked_witness:
  "toggleStep ''cowbell'' 0 (run [] (init True)) = (Some TypeError, run [] (init True)) \<and>
   fst (toggleStep ''constructor'' 0 (run [] (init True))) = Some TypeError \<and>
   builtinProps (snd (toggleStep ''constructor'' 0 (run [] (init True)))) ''constructor'' (key_of 0)
     = Some True \<and>
   fst (toggleStep ''kick'' 3 (run [] (init True))) = None \<and>
   isActive (snd (toggleStep ''kick'' 3 (run [] (init True)))) ''kick'' 3 \<and>
   fst (toggleStep ''kick'' 16 (run [] (init True))) = Some TypeError \<and>
   isActive (snd (toggleStep ''kick'' 16 (run [] (init True)))) ''kick'' 16"
proof -
  have k: "''cowbell'' \<notin> set tracks" "''kick'' \<in> set tracks" "''constructor'' \<notin> set tracks"
    by (simp_all add: tracks_def)
  have f: "''cowbell'' \<notin> set function_names" "''constructor'' \<in> set function_names"
    by (simp_all add: function_names_def)
  have n: "\<not> isActive (run [] (init True)) ''kick'' j" for j
    by (simp add: isActive_def init_def tracks_def new_row_def fill_false_def row_get_def truthy_def)
  have e: "builtinProps (run [] (init True)) ''constructor'' (key_of 0) = None"
    "objectProto (run [] (init True)) (key_of 0) = None"
    by (simp_all add: init_def)
  have r: "(0::int) \<le> 3 \<and> 3 < steps" "\<not> (0 \<le> (16::int) \<and> 16 < steps)"
    by (simp_all add: steps_def)
  note a = toggleStep_unchecked [of "run [] (init True)" "[]" True "''cowbell''" 0, OF refl]
  note g = toggleStep_unchecked [of "run [] (init True)" "[]" True "''constructor''" 0, OF refl]
  note b = toggleStep_unchecked [of "run [] (init True)" "[]" True "''kick''" 3, OF refl]
  note c = toggleStep_unchecked [of "run [] (init True)" "[]" True "''kick''" 16, OF refl]
  from a [THEN conjunct1] k(1) f(1)
  have 1: "toggleStep ''cowbell'' 0 (run [] (init True)) = (Some TypeError, run [] (init True))"
    by simp
  from g [THEN conjunct1] k(3) f(2) e
  have 4: "fst (toggleStep ''constructor'' 0 (run [] (init True))) = Some TypeError \<and>
    builtinProps (snd (toggleStep ''constructor'' 0 (run [] (init True)))) ''constructor'' (key_of 0)
      = Some True"
    by (simp add: truthy_def)
  from b [THEN conjunct2, THEN conjunct1] k(2) r(1) n [of 3]
  have 2: "fst (toggleStep ''kick'' 3 (run [] (init True))) = None \<and>
     isActive (snd (toggleStep ''kick'' 3 (run [] (init True)))) ''kick'' 3"
    by blast
  from c [THEN conjunct2, THEN conjunct2] k(2) r(2) n [of 16]
  have 3: "fst (toggleStep ''kick'' 16 (run [] (init True))) = Some TypeError \<and>
     isActive (snd (toggleStep ''kick'' 16 (run [] (init True)))) ''kick'' 16"
    by blast
  from 1 2 3 4 show ?thesis by blast
qed

section \<open>Audition and mute (C8)\<close>

text \<open>
  C8. The mute set is read by the tick only. In every state the event handlers can
  reach, for a known track and a step in \<open>[0, 16)\<close>: \<open>toggleStep\<close> on an unset cell sets it
  and calls \<open>playSound\<close> for the track, muted or not, so with an audio context exactly
  one voice of that track is started; \<open>toggleStep\<close> on a set cell starts no voice; and no
  voice that a tick starts belongs to a muted track.
\<close>

theorem audition_ignores_mute_tick_respects_it:
  assumes "s = run es (init a)" and "t \<in> set tracks" and "0 \<le> i" and "i < steps"
  shows "(\<not> isActive s t i \<longrightarrow>
            (\<exists>r. pattern s t = Some r \<and>
               toggleStep t i s =
                 playSound t (s\<lparr>pattern := (pattern s)(t \<mapsto> r\<lparr>cells := (cells r)(i \<mapsto> True)\<rparr>)\<rparr>)) \<and>
            (a \<longrightarrow> (\<exists>v. voices (snd (toggleStep t i s)) = voices s @ [v] \<and> v_track v = t))) \<and>
         (isActive s t i \<longrightarrow> voices (snd (toggleStep t i s)) = voices s) \<and>
         (\<exists>new. voices (snd (playStep s)) = voices s @ new \<and>
            (\<forall>v\<in>set new. v_track v \<notin> mutedTracks s))"
proof -
  have i: "state_ok s" using assms(1) by (simp add: state_ok_reach)
  then have p: "pattern_ok s" and c: "config_ok s" by (simp_all add: state_ok_def)
  have au: "audioContext s = a" using assms(1) by (simp add: init_def)
  have i16: "i < 16" using assms(4) by (simp add: steps_def)
  from toggleStep_in_range [OF p assms(2,3) i16] obtain r b where
    r: "pattern s t = Some r" "cells r i = Some b" and
    t1: "toggleStep t i s =
           (if b then (None, s\<lparr>pattern := (pattern s)(t \<mapsto> r\<lparr>cells := (cells r)(i \<mapsto> False)\<rparr>)\<rparr>)
            else playSound t (s\<lparr>pattern := (pattern s)(t \<mapsto> r\<lparr>cells := (cells r)(i \<mapsto> True)\<rparr>)\<rparr>))"
    by blast
  have a0: "isActive s t i = b" using r by (rule isActive_cell)
  let ?s1 = "s\<lparr>pattern := (pattern s)(t \<mapsto> r\<lparr>cells := (cells r)(i \<mapsto> True)\<rparr>)\<rparr>"
  from c assms(2) obtain cf f d where
    cf: "soundConfig s t = Some cf" "frequency cf = Some f" "decay cf = Some d"
    by (auto simp: config_ok_def)
  have v: "voices (snd (playSound t ?s1)) = voices s @ [mk_voice t cf f d]" if a
    using that au cf by (simp add: playSound_def lookup_config_def)
  have 1: "\<not> isActive s t i \<longrightarrow>
            (\<exists>r. pattern s t = Some r \<and>
               toggleStep t i s =
                 playSound t (s\<lparr>pattern := (pattern s)(t \<mapsto> r\<lparr>cells := (cells r)(i \<mapsto> True)\<rparr>)\<rparr>)) \<and>
            (a \<longrightarrow> (\<exists>v. voices (snd (toggleStep t i s)) = voices s @ [v] \<and> v_track v = t))"
  proof
    assume "\<not> isActive s t i"
    then have nb: "\<not> b" using a0 by simp
    then have e: "toggleStep t i s = playSound t ?s1" using t1 by simp
    have "a \<longrightarrow> (\<exists>v. voices (snd (toggleStep t i s)) = voices s @ [v] \<and> v_track v = t)"
    proof
      assume a
      then have "voices (snd (toggleStep t i s)) = voices s @ [mk_voice t cf f d]"
        using v e by simp
      moreover have "v_track (mk_voice t cf f d) = t" by (simp add: mk_voice_def)
      ultimately show "\<exists>v. voices (snd (toggleStep t i s)) = voices s @ [v] \<and> v_track v = t"
        by blast
    qed
    with e r(1) show "(\<exists>r. pattern s t = Some r \<and>
               toggleStep t i s =
                 playSound t (s\<lparr>pattern := (pattern s)(t \<mapsto> r\<lparr>cells := (cells r)(i \<mapsto> True)\<rparr>)\<rparr>)) \<and>
            (a \<longrightarrow> (\<exists>v. voices (snd (toggleStep t i s)) = voices s @ [v] \<and> v_track v = t))"
      by blast
  qed
  have 2: "isActive s t i \<longrightarrow> voices (snd (toggleStep t i s)) = voices s"
    using a0 t1 by simp
  from playStep_reach [OF i] obtain new where
    n: "playStep s = (None, s\<lparr>voices := voices s @ new, currentStep := (currentStep s + 1) mod 16\<rparr>)"
      "map v_track new = (if audioContext s then filter (fires s) tracks else [])"
    by blast
  have "\<forall>v\<in>set new. v_track v \<notin> mutedTracks s"
  proof
    fix v assume "v \<in> set new"
    then have "v_track v \<in> set (map v_track new)" by simp
    then have "v_track v \<in> set (filter (fires s) tracks)"
      unfolding n(2) by (simp split: if_splits)
    then show "v_track v \<notin> mutedTracks s" by (simp add: fires_def)
  qed
  moreover have "voices (snd (playStep s)) = voices s @ new" using n(1) by simp
  ultimately have 3: "\<exists>new. voices (snd (playStep s)) = voices s @ new \<and>
            (\<forall>v\<in>set new. v_track v \<notin> mutedTracks s)"
    by blast
  from 1 2 3 show ?thesis by blast
qed

text \<open>
  The snare is muted and its step 0 is clicked: the click starts one snare voice.
\<close>

theorem audition_ignores_mute_tick_respects_it_witness:
  "''snare'' \<in> mutedTracks (run [ClickMute ''snare''] (init True)) \<and>
   (\<exists>v. voices (snd (toggleStep ''snare'' 0 (run [ClickMute ''snare''] (init True)))) =
         voices (run [ClickMute ''snare''] (init True)) @ [v] \<and> v_track v = ''snare'')"
proof -
  define s where "s = run [ClickMute ''snare''] (init True)"
  have m: "''snare'' \<in> mutedTracks s"
    unfolding s_def by (simp add: toggleMute_def init_def)
  have n: "\<not> isActive s ''snare'' 0"
    unfolding s_def
    by (simp add: toggleMute_def isActive_def init_def tracks_def new_row_def fill_false_def
        row_get_def truthy_def steps_def)
  have k: "''snare'' \<in> set tracks" "(0::int) \<le> 0" "(0::int) < steps"
    by (simp_all add: tracks_def steps_def)
  from audition_ignores_mute_tick_respects_it [OF s_def k, THEN conjunct1] n
  have "\<exists>v. voices (snd (toggleStep ''snare'' 0 s)) = voices s @ [v] \<and> v_track v = ''snare''"
    by blast
  with m show ?thesis unfolding s_def by blast
qed

end
